theory Spec2Isabelle
  imports Main "HOL-Library.Sublist"
begin

section \<open>The file system the notebook runs on\<close>

text \<open>
  The manifest code of \<^verbatim>\<open>future_land_use_RO.ipynb\<close> (cell "RO-Crate method definition",
  function \<^verbatim>\<open>create_and_write_ro_crate_metadata(directory, omit_names=None)\<close>) reads a
  directory tree with \<^verbatim>\<open>os.walk\<close>, \<^verbatim>\<open>os.path.exists\<close>, \<^verbatim>\<open>open\<close> and \<^verbatim>\<open>morpc.md5\<close>.
  The tree is a value here: a file has a name and a content, a directory a name and the
  list of its children in the order \<^verbatim>\<open>os.scandir\<close> enumerates them. Symbolic links are
  not modelled. A path into the tree is the list of its components; the directory the
  function is called on and the working directory of the process are such lists (the
  notebook passes \<^verbatim>\<open>os.getcwd()\<close>, an absolute normalised path).
\<close>

datatype node = File string string | Dir string "node list"

fun node_name :: "node \<Rightarrow> string" where
  "node_name (File n c) = n"
| "node_name (Dir n ch) = n"

fun is_dir :: "node \<Rightarrow> bool" where
  "is_dir (File n c) = False"
| "is_dir (Dir n ch) = True"

fun children_of :: "node \<Rightarrow> node list" where
  "children_of (File n c) = []"
| "children_of (Dir n ch) = ch"

text \<open>Resolving a list of components from a node: the first child of that name.\<close>

primrec lookup :: "string list \<Rightarrow> node \<Rightarrow> node option" where
  "lookup [] n = Some n"
| "lookup (c # cs) n =
     (case find (\<lambda>k. node_name k = c) (children_of n) of
        None \<Rightarrow> None
      | Some k \<Rightarrow> lookup cs k)"

section \<open>Path strings\<close>

text \<open>
  Relative paths are strings, as in the source, with \<^verbatim>\<open>/\<close> as separator.
  \<open>join_path\<close> is \<^verbatim>\<open>"/".join(components)\<close>; \<open>relpath\<close> is what
  \<^verbatim>\<open>os.path.relpath(p, directory)\<close> returns for a path \<open>p\<close> that lies below
  \<^verbatim>\<open>directory\<close> by the given components: \<^verbatim>\<open>"."\<close> for the directory itself.
\<close>

fun join_path :: "string list \<Rightarrow> string" where
  "join_path [] = []"
| "join_path [c] = c"
| "join_path (c # d # cs) = c @ ''/'' @ join_path (d # cs)"

definition relpath :: "string list \<Rightarrow> string" where
  "relpath comps = (if comps = [] then ''.'' else join_path comps)"

text \<open>\<^verbatim>\<open>s.split(c)\<close> of Python, and the components of a path string (empty components
  and \<^verbatim>\<open>.\<close> name no step).\<close>

primrec splitc :: "char \<Rightarrow> string \<Rightarrow> string list" where
  "splitc c [] = [[]]"
| "splitc c (x # xs) =
     (if x = c then [] # splitc c xs
      else (case splitc c xs of [] \<Rightarrow> [[x]] | w # ws \<Rightarrow> (x # w) # ws))"

definition path_components :: "string \<Rightarrow> string list" where
  "path_components p = filter (\<lambda>c. c \<noteq> [] \<and> c \<noteq> ''.'') (splitc CHR ''/'' p)"

text \<open>A path string is resolved against a base directory unless it is absolute; this is
  both the kernel's resolution of a relative path against the working directory and
  \<^verbatim>\<open>os.path.join(base, p)\<close>.\<close>

definition resolve :: "string list \<Rightarrow> string \<Rightarrow> string list" where
  "resolve base p =
     (if p \<noteq> [] \<and> hd p = CHR ''/'' then path_components p else base @ path_components p)"

text \<open>\<^verbatim>\<open>str.endswith\<close>, \<^verbatim>\<open>str.rfind\<close> for one character (\<open>-1\<close> when absent),
  \<^verbatim>\<open>os.path.basename\<close> and the first component of \<^verbatim>\<open>os.path.splitext\<close>
  (\<^verbatim>\<open>genericpath._splitext\<close>: the extension starts at the last dot of the last
  component, leading dots of that component apart).\<close>

definition endswith :: "string \<Rightarrow> string \<Rightarrow> bool" where
  "endswith s suf \<longleftrightarrow> length suf \<le> length s \<and> drop (length s - length suf) s = suf"

definition rfind :: "char \<Rightarrow> string \<Rightarrow> int" where
  "rfind c s =
     (if c \<in> set s then int (length s) - 1 - int (length (takeWhile (\<lambda>x. x \<noteq> c) (rev s)))
      else - 1)"

definition basename :: "string \<Rightarrow> string" where
  "basename p = drop (nat (rfind CHR ''/'' p + 1)) p"

definition splitext_root :: "string \<Rightarrow> string" where
  "splitext_root p =
     (let sepIndex = rfind CHR ''/'' p;
          dotIndex = rfind CHR ''.'' p
      in if dotIndex > sepIndex \<and>
            list_ex (\<lambda>ch. ch \<noteq> CHR ''.'')
              (take (nat (dotIndex - (sepIndex + 1))) (drop (nat (sepIndex + 1)) p))
         then take (nat dotIndex) p
         else p)"

section \<open>The tree walker\<close>

text \<open>
  \<^verbatim>\<open>should_omit(name)\<close>:
  \<^verbatim>\<open>any(name.endswith(ext) for ext in ['.git', '.ipynb_checkpoints']) or name in omit_names\<close>.
\<close>

definition should_omit :: "string list \<Rightarrow> string \<Rightarrow> bool" where
  "should_omit omit_names name \<longleftrightarrow>
     list_ex (\<lambda>ext. endswith name ext) [''.git'', ''.ipynb_checkpoints'']
     \<or> name \<in> set omit_names"

text \<open>
  One record of \<^verbatim>\<open>contents\<close>. \<open>root\<close> holds the directory \<^verbatim>\<open>os.walk\<close> was at when it
  listed the entry, as its components below \<^verbatim>\<open>directory\<close>: the source keeps the path
  string of that directory and only ever reads it through
  \<^verbatim>\<open>os.path.relpath(item["root"], directory)\<close>.
\<close>

record item =
  itype :: string
  path :: string
  root :: "string list"

text \<open>
  \<^verbatim>\<open>list_directory_contents\<close>. For the directory at \<open>root\<close> with the given children,
  \<^verbatim>\<open>os.walk\<close> yields the names of the sub-directories and of the other entries, the loop
  body prunes \<^verbatim>\<open>dirs\<close> in place, appends a File record for every file it does not omit and
  a Directory record for every directory left, and \<^verbatim>\<open>os.walk\<close> then descends into the
  directories left in \<^verbatim>\<open>dirs\<close>, in order (\<open>walk_dirs\<close>): the records of a directory
  and of everything below it come before those of its next sibling.
\<close>

lemma size_children_of: "size_list size (children_of d) \<le> size d"
  by (cases d) auto

lemma size_list_filter_le: "size_list f (filter P xs) \<le> size_list f xs"
  by (induction xs) auto

function walk_items :: "string list \<Rightarrow> string list \<Rightarrow> node list \<Rightarrow> item list"
  and walk_dirs :: "string list \<Rightarrow> string list \<Rightarrow> node list \<Rightarrow> item list" where
  "walk_items omit_names rt children =
     (let dirs = filter (\<lambda>d. \<not> should_omit omit_names (node_name d)) (filter is_dir children);
          files = map node_name (filter (\<lambda>n. \<not> is_dir n) children)
      in map (\<lambda>nm. \<lparr>itype = ''File'', path = relpath (rt @ [nm]), root = rt\<rparr>)
           (filter (\<lambda>nm. \<not> should_omit omit_names nm) files)
         @ map (\<lambda>nm. \<lparr>itype = ''Directory'', path = relpath (rt @ [nm]), root = rt\<rparr>)
           (filter (\<lambda>nm. \<not> should_omit omit_names nm) (map node_name dirs))
         @ walk_dirs omit_names rt dirs)"
| "walk_dirs omit_names rt [] = []"
| "walk_dirs omit_names rt (d # ds) =
     walk_items omit_names (rt @ [node_name d]) (children_of d) @ walk_dirs omit_names rt ds"
  by pat_completeness auto
termination
proof (relation "measure (\<lambda>x. case x of
          Inl (om, rt, ch) \<Rightarrow> 2 * size_list size ch + 1
        | Inr (om, rt, ds) \<Rightarrow> 2 * size_list size ds)", goal_cases)
  case 1
  show ?case by simp
next
  case (2 omit_names rt children x xa)
  have "size_list size (filter (\<lambda>d. \<not> should_omit omit_names (node_name d)) (filter is_dir children))
        \<le> size_list size children"
    by (meson size_list_filter_le le_trans)
  with 2 show ?case by simp
next
  case (3 omit_names rt d ds)
  show ?case using size_children_of [of d] by simp
next
  case (4 omit_names rt d ds)
  show ?case by simp
qed

declare walk_items.simps(1) [simp del]

text \<open>\<^verbatim>\<open>os.walk\<close> on a path that is missing or is no directory yields nothing (its
  \<^verbatim>\<open>onerror\<close> is unset). \<^verbatim>\<open>omit_names=None\<close> stands for the empty list.\<close>

definition omit_list :: "string list option \<Rightarrow> string list" where
  "omit_list omit_names = (case omit_names of None \<Rightarrow> [] | Some ns \<Rightarrow> ns)"

definition list_directory_contents ::
  "node \<Rightarrow> string list \<Rightarrow> string list option \<Rightarrow> item list" where
  "list_directory_contents t directory omit_names =
     (case lookup directory t of
        Some (Dir n ch) \<Rightarrow> walk_items (omit_list omit_names) [] ch
      | _ \<Rightarrow> [])"

section \<open>Well-formed trees and what a walk should list\<close>

text \<open>
  What a real file system guarantees and the walk relies on: a name is not empty, holds
  no separator and is neither \<^verbatim>\<open>.\<close> nor \<^verbatim>\<open>..\<close>, and the names of the entries of one
  directory are distinct.
\<close>

definition valid_name :: "string \<Rightarrow> bool" where
  "valid_name n \<longleftrightarrow> n \<noteq> [] \<and> CHR ''/'' \<notin> set n \<and> n \<noteq> ''.'' \<and> n \<noteq> ''..''"

fun wf_node :: "node \<Rightarrow> bool" where
  "wf_node (File n c) = valid_name n"
| "wf_node (Dir n ch) =
     (valid_name n \<and> distinct (map node_name ch) \<and> (\<forall>k \<in> set ch. wf_node k))"

definition wf_children :: "node list \<Rightarrow> bool" where
  "wf_children ch \<longleftrightarrow> distinct (map node_name ch) \<and> (\<forall>k \<in> set ch. wf_node k)"

definition wf_fs :: "node \<Rightarrow> bool" where
  "wf_fs t \<longleftrightarrow> wf_children (children_of t)"

text \<open>
  The names \<^verbatim>\<open>list_directory_contents\<close> keeps of one directory, files and directories
  apart, each in the order of the listing; the records the loop body appends for that
  directory; the directories \<^verbatim>\<open>os.walk\<close> descends into; and the record of the entry
  \<open>nd\<close> found at the components \<open>comps\<close> below the walked directory.
\<close>

definition kept_files :: "string list \<Rightarrow> node list \<Rightarrow> string list" where
  "kept_files ns ch =
     filter (\<lambda>nm. \<not> should_omit ns nm) (map node_name (filter (\<lambda>k. \<not> is_dir k) ch))"

definition kept_dirs :: "string list \<Rightarrow> node list \<Rightarrow> string list" where
  "kept_dirs ns ch = filter (\<lambda>nm. \<not> should_omit ns nm) (map node_name (filter is_dir ch))"

definition dir_records :: "string list \<Rightarrow> string list \<Rightarrow> node list \<Rightarrow> item list" where
  "dir_records ns rt ch =
     map (\<lambda>nm. \<lparr>itype = ''File'', path = relpath (rt @ [nm]), root = rt\<rparr>) (kept_files ns ch)
     @ map (\<lambda>nm. \<lparr>itype = ''Directory'', path = relpath (rt @ [nm]), root = rt\<rparr>) (kept_dirs ns ch)"

definition pruned :: "string list \<Rightarrow> node list \<Rightarrow> node list" where
  "pruned ns ch = filter (\<lambda>d. \<not> should_omit ns (node_name d)) (filter is_dir ch)"

definition entry_record :: "string list \<Rightarrow> node \<Rightarrow> item" where
  "entry_record comps nd =
     \<lparr>itype = (if is_dir nd then ''Directory'' else ''File''),
      path = relpath comps, root = butlast comps\<rparr>"

section \<open>Values, errors and the environment\<close>

text \<open>
  The exceptions that can leave the function: \<^verbatim>\<open>yaml.YAMLError\<close> from the loader,
  \<^verbatim>\<open>AttributeError\<close> from \<^verbatim>\<open>resource_data.get\<close> on a value that is no dict,
  \<^verbatim>\<open>OSError\<close> from \<^verbatim>\<open>open\<close>, \<^verbatim>\<open>KeyError\<close> from a dict subscript, and from
  \<^verbatim>\<open>json.dump\<close> \<^verbatim>\<open>TypeError\<close> (a value or key without JSON encoding) and
  \<^verbatim>\<open>ValueError\<close> (a circular reference, an integer too long to print). The source
  catches none of them and raises none of its own.
\<close>

datatype error = YAMLError | AttributeError | OSError | KeyError | TypeError | ValueError

text \<open>
  A float: a finite one is kept as the characters of its \<^verbatim>\<open>float.__repr__\<close>, which are
  digits, the point, \<^verbatim>\<open>e\<close> and the two signs (\<^verbatim>\<open>1.5\<close>, \<^verbatim>\<open>-0.0\<close>, \<^verbatim>\<open>1e+16\<close>); the others are
  the two infinities (YAML \<^verbatim>\<open>.inf\<close>, \<^verbatim>\<open>-.inf\<close>) and not-a-number (\<^verbatim>\<open>.nan\<close>).
\<close>

datatype fchar =
  F0 | F1 | F2 | F3 | F4 | F5 | F6 | F7 | F8 | F9 | FPoint | FExp | FPlus | FMinus

datatype pyfloat = Finite "fchar list" | FInf | FNegInf | FNaN

text \<open>
  What \<^verbatim>\<open>yaml.safe_load\<close> can return and \<^verbatim>\<open>json.dump\<close> is given: \<^verbatim>\<open>None\<close>, booleans,
  integers, floats, strings, lists, dicts (as association lists in insertion order),
  and the objects JSON has no encoding for (\<^verbatim>\<open>datetime.date\<close>, \<^verbatim>\<open>bytes\<close>, \<^verbatim>\<open>set\<close>), kept
  as their type name.

  With an anchor and an alias (\<^verbatim>\<open>&a [*a]\<close>) the loader also builds lists and dicts that
  contain themselves. A value is given here as it is walked from its top: \<open>PCycle\<close> is
  the place where the walk comes to a list or dict it is still inside of. (A list or dict
  met again after the walk has left it is simply given again.) In the mapping a
  descriptor loads as, the value of each key is given as walked from that value, which
  is how it is used: \<^verbatim>\<open>get\<close> takes it out and \<^verbatim>\<open>json.dump\<close> walks it.
\<close>

datatype pyval =
    PNone
  | PBool bool
  | PInt int
  | PFloat pyfloat
  | PStr string
  | PList "pyval list"
  | PDict "(pyval \<times> pyval) list"
  | PObject string
  | PCycle

text \<open>
  The world outside the function: the file system, the working directory of the process,
  \<^verbatim>\<open>yaml.safe_load\<close> as a function of a file's text, the MD5 digest as a function of a
  file's content, and the string \<^verbatim>\<open>datetime.now().isoformat()\<close> returns.
\<close>

record os_env =
  fs :: node
  cwd :: "string list"
  safe_load :: "string \<Rightarrow> error + pyval"
  md5_hex :: "string \<Rightarrow> string"
  now :: string

text \<open>\<^verbatim>\<open>os.path.exists(p)\<close> and reading the file at \<open>p\<close>, for a path string resolved
  against the working directory.\<close>

definition path_exists :: "os_env \<Rightarrow> string \<Rightarrow> bool" where
  "path_exists env p \<longleftrightarrow> lookup (resolve (cwd env) p) (fs env) \<noteq> None"

definition read_file :: "node \<Rightarrow> string list \<Rightarrow> error + string" where
  "read_file t comps =
     (case lookup comps t of
        Some (File n c) \<Rightarrow> Inr c
      | _ \<Rightarrow> Inl OSError)"

text \<open>
  Modelled from the spec: \<^verbatim>\<open>morpc.md5\<close>, a function of the \<^verbatim>\<open>morpc\<close> package, which is
  not part of the notebook. Section 4.1: given a readable file path it returns the MD5
  digest of the content as a hexadecimal string, and it fails with an I/O error if the
  path does not exist or cannot be read. The path is given by its components.
\<close>

definition morpc_md5 :: "os_env \<Rightarrow> string list \<Rightarrow> error + string" where
  "morpc_md5 env comps =
     (case read_file (fs env) comps of
        Inl e \<Rightarrow> Inl e
      | Inr c \<Rightarrow> Inr (md5_hex env c))"

text \<open>\<^verbatim>\<open>d.get(key, default)\<close>: only a dict has the method.\<close>

definition py_get :: "pyval \<Rightarrow> string \<Rightarrow> pyval \<Rightarrow> error + pyval" where
  "py_get d key dflt =
     (case d of
        PDict kvs \<Rightarrow> Inr (case map_of kvs (PStr key) of None \<Rightarrow> dflt | Some v \<Rightarrow> v)
      | _ \<Rightarrow> Inl AttributeError)"

definition get_description_from_resource_file :: "os_env \<Rightarrow> string \<Rightarrow> error + pyval" where
  "get_description_from_resource_file env resource_file =
     (if path_exists env resource_file then
        (case read_file (fs env) (resolve (cwd env) resource_file) of
           Inl e \<Rightarrow> Inl e
         | Inr text \<Rightarrow>
             (case safe_load env text of
                Inl e \<Rightarrow> Inl e
              | Inr resource_data \<Rightarrow> py_get resource_data ''description'' (PStr [])))
      else Inr (PStr []))"

section \<open>The manifest builder\<close>

text \<open>
  An entity of \<^verbatim>\<open>metadata["@graph"]\<close>. The source builds a dict; a key that was never
  set is \<open>None\<close> here. \<open>contentChecksum\<close> is the list of
  (\<^verbatim>\<open>checksumAlgorithm\<close>, \<^verbatim>\<open>checksumValue\<close>) pairs, \<open>hasPart\<close> the list of the
  \<^verbatim>\<open>@id\<close>s of its \<^verbatim>\<open>{"@id": ...}\<close> references, \<open>isDescribedBy\<close> the \<^verbatim>\<open>@id\<close> of its
  reference.
\<close>

record entity =
  at_id :: string
  at_type :: string
  name :: string
  dateCreated :: "string option"
  description :: "pyval option"
  contentChecksum :: "(string \<times> string) list option"
  hasPart :: "string list option"
  isDescribedBy :: "string option"

text \<open>The root dataset, appended to the graph before the walk.\<close>

definition root_dataset :: "os_env \<Rightarrow> string list \<Rightarrow> entity" where
  "root_dataset env directory =
     \<lparr>at_id = ''./'', at_type = ''Dataset'',
      name = (if directory = [] then [] else last directory),
      dateCreated = Some (now env), description = None, contentChecksum = None,
      hasPart = Some [], isDescribedBy = None\<rparr>"

text \<open>The test both loops make before they look for a resource file, and the name they
  look for.\<close>

definition described_kind :: "item \<Rightarrow> bool" where
  "described_kind it \<longleftrightarrow> itype it = ''File'' \<and> \<not> endswith (path it) ''.resource.yaml''"

definition resource_file_of :: "item \<Rightarrow> string" where
  "resource_file_of it = splitext_root (path it) @ ''.resource.yaml''"

text \<open>The body of the first loop, up to the two appends: the entity of one record.\<close>

definition make_entity :: "os_env \<Rightarrow> string list \<Rightarrow> item \<Rightarrow> error + entity" where
  "make_entity env directory it =
     (let ent = \<lparr>at_id = path it, at_type = itype it, name = basename (path it),
                 dateCreated = None, description = None, contentChecksum = None,
                 hasPart = None, isDescribedBy = None\<rparr>
      in if described_kind it then
           (case (if path_exists env (resource_file_of it)
                  then (case get_description_from_resource_file env (resource_file_of it) of
                          Inl e \<Rightarrow> Inl e
                        | Inr d \<Rightarrow> Inr (ent\<lparr>description := Some d\<rparr>))
                  else Inr ent) of
              Inl e \<Rightarrow> Inl e
            | Inr ent' \<Rightarrow>
                (case morpc_md5 env (resolve directory (path it)) of
                   Inl e \<Rightarrow> Inl e
                 | Inr h \<Rightarrow> Inr (ent'\<lparr>contentChecksum := Some [(''MD5'', h)]\<rparr>)))
         else Inr ent)"

text \<open>
  The first loop. \<^verbatim>\<open>metadata["@graph"]\<close> and \<^verbatim>\<open>path_to_entity\<close> share the entity
  objects, and the second loop mutates them through \<^verbatim>\<open>path_to_entity\<close>: the graph is
  the store, and \<^verbatim>\<open>path_to_entity\<close> maps a path to the position of its entity in the
  graph. A later record of the same path replaces the earlier binding.
\<close>

fun first_pass ::
  "os_env \<Rightarrow> string list \<Rightarrow> item list \<Rightarrow> entity list \<times> (string \<rightharpoonup> nat)
     \<Rightarrow> error + entity list \<times> (string \<rightharpoonup> nat)" where
  "first_pass env directory [] st = Inr st"
| "first_pass env directory (it # its) (graph, path_to_entity) =
     (case make_entity env directory it of
        Inl e \<Rightarrow> Inl e
      | Inr ent \<Rightarrow>
          first_pass env directory its
            (graph @ [ent], path_to_entity(path it \<mapsto> length graph)))"

text \<open>
  The second loop, first half: the parent's \<^verbatim>\<open>hasPart\<close> gets a reference to the record,
  if \<^verbatim>\<open>path_to_entity\<close> knows the parent path (an entity dict is never empty, so
  \<^verbatim>\<open>if parent_entity:\<close> tests only that the lookup did not return \<^verbatim>\<open>None\<close>).
\<close>

definition parent_path_of :: "item \<Rightarrow> string" where
  "parent_path_of it =
     (let parent_path = relpath (root it)
      in if parent_path = ''.'' then ''./'' else parent_path)"

definition add_part :: "(string \<rightharpoonup> nat) \<Rightarrow> item \<Rightarrow> entity list \<Rightarrow> entity list" where
  "add_part path_to_entity it graph =
     (case path_to_entity (parent_path_of it) of
        None \<Rightarrow> graph
      | Some i \<Rightarrow>
          graph[i := (graph ! i)\<lparr>hasPart :=
            Some ((case hasPart (graph ! i) of None \<Rightarrow> [] | Some ps \<Rightarrow> ps) @ [path it])\<rparr>])"

text \<open>The second half: the link from a data file to its resource file.\<close>

definition link_resource ::
  "(string \<rightharpoonup> nat) \<Rightarrow> item \<Rightarrow> entity list \<Rightarrow> error + entity list" where
  "link_resource path_to_entity it graph =
     (if described_kind it \<and> path_to_entity (resource_file_of it) \<noteq> None then
        (case path_to_entity (path it) of
           None \<Rightarrow> Inl KeyError
         | Some j \<Rightarrow> Inr (graph[j := (graph ! j)\<lparr>isDescribedBy := Some (resource_file_of it)\<rparr>]))
      else Inr graph)"

fun second_pass ::
  "(string \<rightharpoonup> nat) \<Rightarrow> item list \<Rightarrow> entity list \<Rightarrow> error + entity list" where
  "second_pass path_to_entity [] graph = Inr graph"
| "second_pass path_to_entity (it # its) graph =
     (case link_resource path_to_entity it (add_part path_to_entity it graph) of
        Inl e \<Rightarrow> Inl e
      | Inr graph' \<Rightarrow> second_pass path_to_entity its graph')"

text \<open>The graph the function has built when it reaches the write, from the records of
  the walk; and the same from the directory.\<close>

definition build_graph :: "os_env \<Rightarrow> string list \<Rightarrow> item list \<Rightarrow> error + entity list" where
  "build_graph env directory contents =
     (case first_pass env directory contents ([root_dataset env directory], Map.empty) of
        Inl e \<Rightarrow> Inl e
      | Inr (graph, path_to_entity) \<Rightarrow> second_pass path_to_entity contents graph)"

definition create_metadata ::
  "os_env \<Rightarrow> string list \<Rightarrow> string list option \<Rightarrow> error + entity list" where
  "create_metadata env directory omit_names =
     build_graph env directory (list_directory_contents (fs env) directory omit_names)"

section \<open>The manifest writer\<close>

text \<open>
  \<^verbatim>\<open>json.dump(metadata, f, indent=2)\<close>. The encoder is the generator of
  \<^verbatim>\<open>json.encoder._make_iterencode\<close>, which yields the document chunk by chunk;
  \<^verbatim>\<open>json.dump\<close> writes each chunk to the file as it comes. \<open>iterencode\<close> returns the text
  of the chunks yielded and the exception that stopped the encoder, if any:
  \<^verbatim>\<open>TypeError\<close> at a value or a dict key that has no JSON encoding, \<^verbatim>\<open>ValueError\<close> at a
  list or dict it is still inside of (\<^verbatim>\<open>check_circular\<close>) and at an integer too long to
  print, always after the chunks before it. Item separator \<^verbatim>\<open>","\<close>, key separator
  \<^verbatim>\<open>": "\<close>, \<^verbatim>\<open>ensure_ascii\<close>, \<^verbatim>\<open>allow_nan\<close>; a character is taken as the code point of
  its byte. A write that fails on the disk and a nesting deeper than the interpreter's
  recursion limit are left out.
\<close>

definition digit_char :: "nat \<Rightarrow> char" where
  "digit_char d = ''0123456789abcdef'' ! d"

fun show_nat :: "nat \<Rightarrow> string" where
  "show_nat n = (if n < 10 then [digit_char n] else show_nat (n div 10) @ [digit_char (n mod 10)])"

declare show_nat.simps [simp del]

definition show_int :: "int \<Rightarrow> string" where
  "show_int i = (if i < 0 then ''-'' @ show_nat (nat (- i)) else show_nat (nat i))"

text \<open>
  \<^verbatim>\<open>int.__repr__\<close>, the encoder's \<^verbatim>\<open>_intstr\<close>. Since Python 3.11 (the notebook's kernel is
  3.12) it raises \<^verbatim>\<open>ValueError\<close> for an integer of more decimal digits than
  \<^verbatim>\<open>sys.int_info.default_max_str_digits\<close>; a YAML integer in base 16 can be that long.
\<close>

definition max_str_digits :: nat where
  "max_str_digits = 4300"

definition intstr :: "int \<Rightarrow> error + string" where
  "intstr i =
     (if max_str_digits < length (show_nat (nat \<bar>i\<bar>)) then Inl ValueError
      else Inr (show_int i))"

definition escape_char :: "char \<Rightarrow> string" where
  "escape_char c =
     (if c = CHR 0x22 then [CHR 0x5C, CHR 0x22]
      else if c = CHR 0x5C then [CHR 0x5C, CHR 0x5C]
      else if c = CHR 0x0A then [CHR 0x5C, CHR ''n'']
      else if c = CHR 0x0D then [CHR 0x5C, CHR ''r'']
      else if c = CHR 0x09 then [CHR 0x5C, CHR ''t'']
      else if c = CHR 0x0C then [CHR 0x5C, CHR ''f'']
      else if c = CHR 0x08 then [CHR 0x5C, CHR ''b'']
      else if of_char c < (0x20 :: nat) \<or> (0x7E :: nat) < of_char c
        then [CHR 0x5C, CHR ''u'', CHR ''0'', CHR ''0'',
              digit_char (of_char c div 16), digit_char (of_char c mod 16)]
      else [c])"

definition encode_basestring_ascii :: "string \<Rightarrow> string" where
  "encode_basestring_ascii s = [CHR 0x22] @ concat (map escape_char s) @ [CHR 0x22]"

definition newline_indent :: "nat \<Rightarrow> string" where
  "newline_indent level = CHR 0x0A # replicate (2 * level) CHR '' ''"

text \<open>\<^verbatim>\<open>floatstr\<close> of the encoder: \<^verbatim>\<open>float.__repr__\<close> for a finite float, and the three
  tokens that \<^verbatim>\<open>allow_nan\<close> lets through.\<close>

fun fchar_text :: "fchar \<Rightarrow> char" where
  "fchar_text F0 = CHR ''0''"
| "fchar_text F1 = CHR ''1''"
| "fchar_text F2 = CHR ''2''"
| "fchar_text F3 = CHR ''3''"
| "fchar_text F4 = CHR ''4''"
| "fchar_text F5 = CHR ''5''"
| "fchar_text F6 = CHR ''6''"
| "fchar_text F7 = CHR ''7''"
| "fchar_text F8 = CHR ''8''"
| "fchar_text F9 = CHR ''9''"
| "fchar_text FPoint = CHR ''.''"
| "fchar_text FExp = CHR ''e''"
| "fchar_text FPlus = CHR ''+''"
| "fchar_text FMinus = CHR ''-''"

fun floatstr :: "pyfloat \<Rightarrow> string" where
  "floatstr FNaN = ''NaN''"
| "floatstr FInf = ''Infinity''"
| "floatstr FNegInf = ''-Infinity''"
| "floatstr (Finite cs) = map fchar_text cs"

text \<open>The string a dict key is written as; a key of another type raises \<^verbatim>\<open>TypeError\<close>.\<close>

fun key_string :: "pyval \<Rightarrow> error + string" where
  "key_string (PStr s) = Inr s"
| "key_string (PFloat x) = Inr (floatstr x)"
| "key_string (PBool b) = Inr (if b then ''true'' else ''false'')"
| "key_string PNone = Inr ''null''"
| "key_string (PInt i) = intstr i"
| "key_string (PList xs) = Inl TypeError"
| "key_string (PDict kvs) = Inl TypeError"
| "key_string (PObject t) = Inl TypeError"
| "key_string PCycle = Inl TypeError"

fun iterencode :: "nat \<Rightarrow> pyval \<Rightarrow> string \<times> error option"
  and iterencode_list :: "nat \<Rightarrow> bool \<Rightarrow> pyval list \<Rightarrow> string \<times> error option"
  and iterencode_dict :: "nat \<Rightarrow> bool \<Rightarrow> (pyval \<times> pyval) list \<Rightarrow> string \<times> error option" where
  "iterencode level PNone = (''null'', None)"
| "iterencode level (PBool b) = (if b then ''true'' else ''false'', None)"
| "iterencode level (PInt i) =
     (case intstr i of Inl e \<Rightarrow> ([], Some e) | Inr digits \<Rightarrow> (digits, None))"
| "iterencode level (PFloat x) = (floatstr x, None)"
| "iterencode level (PStr s) = (encode_basestring_ascii s, None)"
| "iterencode level (PObject t) = ([], Some TypeError)"
| "iterencode level PCycle = ([], Some ValueError)"
| "iterencode level (PList xs) =
     (if xs = [] then (''[]'', None)
      else (case iterencode_list (Suc level) True xs of
              (out, err) \<Rightarrow>
                if err = None
                then (''['' @ newline_indent (Suc level) @ out @ newline_indent level @ '']'', None)
                else (''['' @ newline_indent (Suc level) @ out, err)))"
| "iterencode level (PDict kvs) =
     (if kvs = [] then (''{}'', None)
      else (case iterencode_dict (Suc level) True kvs of
              (out, err) \<Rightarrow>
                if err = None
                then (''{'' @ newline_indent (Suc level) @ out @ newline_indent level @ ''}'', None)
                else (''{'' @ newline_indent (Suc level) @ out, err)))"
| "iterencode_list level first [] = ([], None)"
| "iterencode_list level first (x # xs) =
     (let buf = (if first then [] else '','' @ newline_indent level)
      in case iterencode level x of
           (out, err) \<Rightarrow>
             if err = None then (case iterencode_list level False xs of
                                   (out', err') \<Rightarrow> (buf @ out @ out', err'))
             else (buf @ out, err))"
| "iterencode_dict level first [] = ([], None)"
| "iterencode_dict level first ((k, v) # kvs) =
     (case key_string k of
        Inl e \<Rightarrow> ([], Some e)
      | Inr key \<Rightarrow>
          (let buf = (if first then [] else '','' @ newline_indent level)
                       @ encode_basestring_ascii key @ '': ''
           in case iterencode level v of
                (out, err) \<Rightarrow>
                  if err = None then (case iterencode_dict level False kvs of
                                        (out', err') \<Rightarrow> (buf @ out @ out', err'))
                  else (buf @ out, err)))"

text \<open>
  The values \<^verbatim>\<open>json.dump\<close> can write to the end: built from \<^verbatim>\<open>None\<close>, booleans, floats,
  strings, integers below \<open>10 ^ max_str_digits\<close> in absolute value, lists, and dicts whose
  keys are of the first five kinds; no object without encoding and no list or dict that
  contains itself.
\<close>

fun dumpable_key :: "pyval \<Rightarrow> bool" where
  "dumpable_key (PStr s) = True"
| "dumpable_key (PFloat x) = True"
| "dumpable_key (PBool b) = True"
| "dumpable_key PNone = True"
| "dumpable_key (PInt i) = (\<bar>i\<bar> < 10 ^ max_str_digits)"
| "dumpable_key (PList xs) = False"
| "dumpable_key (PDict kvs) = False"
| "dumpable_key (PObject t) = False"
| "dumpable_key PCycle = False"



text \<open>
  The dict of an entity, keys in the order of insertion, and the document. (An entity
  with both \<^verbatim>\<open>hasPart\<close> and \<^verbatim>\<open>isDescribedBy\<close> would have them in the order they were
  first set; no walk produces one, a parent being a directory and a described entry a
  file.)
\<close>

definition entity_dict :: "entity \<Rightarrow> pyval" where
  "entity_dict e =
     PDict
       ([(PStr ''@id'', PStr (at_id e)), (PStr ''@type'', PStr (at_type e)),
         (PStr ''name'', PStr (name e))]
        @ (case dateCreated e of None \<Rightarrow> [] | Some d \<Rightarrow> [(PStr ''dateCreated'', PStr d)])
        @ (case description e of None \<Rightarrow> [] | Some d \<Rightarrow> [(PStr ''description'', d)])
        @ (case contentChecksum e of
             None \<Rightarrow> []
           | Some sums \<Rightarrow>
               [(PStr ''contentChecksum'',
                 PList (map (\<lambda>(alg, v). PDict [(PStr ''checksumAlgorithm'', PStr alg),
                                                (PStr ''checksumValue'', PStr v)]) sums))])
        @ (case hasPart e of
             None \<Rightarrow> []
           | Some parts \<Rightarrow>
               [(PStr ''hasPart'', PList (map (\<lambda>p. PDict [(PStr ''@id'', PStr p)]) parts))])
        @ (case isDescribedBy e of
             None \<Rightarrow> []
           | Some r \<Rightarrow> [(PStr ''isDescribedBy'', PDict [(PStr ''@id'', PStr r)])]))"

definition metadata_dict :: "entity list \<Rightarrow> pyval" where
  "metadata_dict graph =
     PDict [(PStr ''@context'', PStr ''https://w3id.org/ro/crate/1.1/context''),
            (PStr ''@graph'', PList (map entity_dict graph))]"

text \<open>
  \<^verbatim>\<open>open(path, 'w')\<close> followed by writes and the close: the file of that name in the
  directory the path leads to is created or replaced by a file of the given content.
  It fails if the directory is missing or the name is that of a directory.
\<close>

fun put_file :: "string \<Rightarrow> string \<Rightarrow> node list \<Rightarrow> node list option" where
  "put_file nm c [] = Some [File nm c]"
| "put_file nm c (k # ks) =
     (if node_name k = nm then (if is_dir k then None else Some (File nm c # ks))
      else map_option ((#) k) (put_file nm c ks))"

fun replace_child :: "node \<Rightarrow> node list \<Rightarrow> node list" where
  "replace_child k' [] = []"
| "replace_child k' (k # ks) =
     (if node_name k = node_name k' then k' # ks else k # replace_child k' ks)"

primrec write_file :: "string list \<Rightarrow> string \<Rightarrow> node \<Rightarrow> node option" where
  "write_file [] c t = None"
| "write_file (d # rest) c t =
     (if \<not> is_dir t then None
      else if rest = [] then map_option (Dir (node_name t)) (put_file d c (children_of t))
      else (case find (\<lambda>k. node_name k = d) (children_of t) of
              None \<Rightarrow> None
            | Some k \<Rightarrow>
                (case write_file rest c k of
                   None \<Rightarrow> None
                 | Some k' \<Rightarrow> Some (Dir (node_name t) (replace_child k' (children_of t))))))"

text \<open>
  The whole function: the graph is built, \<^verbatim>\<open>ro-crate-metadata.json\<close> in the working
  directory is opened for writing, which empties it, and the chunks of the document are
  written to it. The result is the exception that left the function, if any, and the
  file system it leaves behind.
\<close>

definition manifest_path :: "os_env \<Rightarrow> string list" where
  "manifest_path env = resolve (cwd env) ''ro-crate-metadata.json''"

definition create_and_write_ro_crate_metadata ::
  "os_env \<Rightarrow> string list \<Rightarrow> string list option \<Rightarrow> error option \<times> node" where
  "create_and_write_ro_crate_metadata env directory omit_names =
     (case create_metadata env directory omit_names of
        Inl e \<Rightarrow> (Some e, fs env)
      | Inr graph \<Rightarrow>
          (case write_file (manifest_path env) [] (fs env) of
             None \<Rightarrow> (Some OSError, fs env)
           | Some opened \<Rightarrow>
               (case iterencode 0 (metadata_dict graph) of
                  (out, err) \<Rightarrow>
                    (case write_file (manifest_path env) out opened of
                       None \<Rightarrow> (Some OSError, opened)
                     | Some written \<Rightarrow> (err, written)))))"

section \<open>Example trees\<close>

text \<open>
  The inputs the closed theorems below are evaluated on. The walked directory is
  \<^verbatim>\<open>/data\<close>, which is also the working directory, as in the notebook's call.
  \<open>example_load\<close> gives the value \<^verbatim>\<open>yaml.safe_load\<close> returns on the descriptor texts
  the examples contain (an empty document loads as \<^verbatim>\<open>None\<close>, a date scalar as a
  \<^verbatim>\<open>datetime.date\<close>); the digest is a stand-in that shows which content was hashed.
\<close>

definition example_load :: "string \<Rightarrow> error + pyval" where
  "example_load text =
     (if text = [] then Inr PNone
      else if text = ''description: Attribute table''
        then Inr (PDict [(PStr ''description'', PStr ''Attribute table'')])
      else if text = ''description: 2024-06-14''
        then Inr (PDict [(PStr ''description'', PObject ''date'')])
      else if text = ''name: a'' then Inr (PDict [(PStr ''name'', PStr ''a'')])
      else Inl YAMLError)"

definition example_env :: "node \<Rightarrow> os_env" where
  "example_env t =
     \<lparr>fs = t, cwd = [''data''], safe_load = example_load,
      md5_hex = (\<lambda>c. ''md5 of '' @ c), now = ''2024-06-14T12:00:00''\<rparr>"

definition single_file_tree :: node where
  "single_file_tree = Dir [] [Dir ''data'' [File ''a.csv'' ''1,2'']]"

definition scenario_tree :: node where
  "scenario_tree =
     Dir [] [Dir ''data''
       [File ''a.csv'' ''1,2'',
        File ''a.resource.yaml'' ''description: Attribute table'',
        Dir ''b'' [File ''x.txt'' ''hello'']]]"

definition empty_descriptor_tree :: node where
  "empty_descriptor_tree =
     Dir [] [Dir ''data'' [File ''a.csv'' ''1,2'', File ''a.resource.yaml'' []]]"

definition scenario_graph :: "entity list" where
  "scenario_graph =
         [\<lparr>at_id = ''./'', at_type = ''Dataset'', name = ''data'',
            dateCreated = Some ''2024-06-14T12:00:00'', description = None,
            contentChecksum = None, hasPart = Some [], isDescribedBy = None\<rparr>,
          \<lparr>at_id = ''a.csv'', at_type = ''File'', name = ''a.csv'',
            dateCreated = None, description = Some (PStr ''Attribute table''),
            contentChecksum = Some [(''MD5'', ''md5 of 1,2'')], hasPart = None,
            isDescribedBy = Some ''a.resource.yaml''\<rparr>,
          \<lparr>at_id = ''a.resource.yaml'', at_type = ''File'', name = ''a.resource.yaml'',
            dateCreated = None, description = None,
            contentChecksum = None, hasPart = None, isDescribedBy = None\<rparr>,
          \<lparr>at_id = ''b'', at_type = ''Directory'', name = ''b'',
            dateCreated = None, description = None,
            contentChecksum = None, hasPart = Some [''b/x.txt''], isDescribedBy = None\<rparr>,
          \<lparr>at_id = ''b/x.txt'', at_type = ''File'', name = ''x.txt'',
            dateCreated = None, description = None,
            contentChecksum = Some [(''MD5'', ''md5 of hello'')], hasPart = None,
            isDescribedBy = None\<rparr>]"

definition descriptor_only_tree :: node where
  "descriptor_only_tree =
     Dir [] [Dir ''data'' [File ''a.resource.yaml'' ''description: Attribute table'']]"

definition duplicate_contents :: "item list" where
  "duplicate_contents =
     [\<lparr>itype = ''File'', path = ''a.csv'', root = []\<rparr>,
      \<lparr>itype = ''File'', path = ''a.csv'', root = []\<rparr>]"

definition described_pair_tree :: node where
  "described_pair_tree =
     Dir [] [Dir ''data''
       [File ''a.csv'' ''1,2'',
        File ''a.resource.yaml'' ''description: Attribute table'']]"

definition exclusion_tree :: node where
  "exclusion_tree =
     Dir [] [Dir ''data''
       [Dir ''tmp'' [File ''y.txt'' ''y'', Dir ''sub'' [File ''w.txt'' ''w'']],
        File ''keep.txt'' ''k'',
        Dir ''tmp2'' [File ''z.txt'' ''z''],
        Dir ''.git'' [File ''config'' ''c'']]]"

definition empty_dir_tree :: node where
  "empty_dir_tree = Dir [] [Dir ''data'' [Dir ''e'' []]]"

definition ordering_tree :: node where
  "ordering_tree =
     Dir [] [Dir ''data''
       [Dir ''d1'' [],
        File ''f1.txt'' ''1'',
        Dir ''d2'' [Dir ''g'' [], File ''h.txt'' ''h'', File ''i.txt'' ''i''],
        File ''f2.txt'' ''2'']]"



section \<open>The walk lists the entries no component of which is omitted\<close>

lemma splitc_no_sep: "c \<notin> set s \<Longrightarrow> splitc c s = [s]"
  by (induction s) auto

lemma splitc_append_sep:
  "c \<notin> set s \<Longrightarrow> splitc c (s @ c # t) = s # splitc c t"
  by (induction s) auto

lemma splitc_join_path:
  "comps \<noteq> [] \<Longrightarrow> \<forall>x \<in> set comps. CHR ''/'' \<notin> set x \<Longrightarrow>
     splitc CHR ''/'' (join_path comps) = comps"
proof (induction comps rule: join_path.induct)
  case 1
  then show ?case by simp
next
  case (2 c)
  then show ?case by (simp add: splitc_no_sep)
next
  case (3 c d cs)
  then show ?case using splitc_append_sep [of "CHR ''/''" c "join_path (d # cs)"] by simp
qed

lemma wf_children_of: "wf_node d \<Longrightarrow> wf_children (children_of d)"
  by (cases d) (auto simp: wf_children_def)

lemma map_filter_name: "map node_name (filter (\<lambda>d. P (node_name d)) xs) = filter P (map node_name xs)"
  by (induction xs) auto

lemma walk_items_eq:
  "walk_items ns rt ch = dir_records ns rt ch @ walk_dirs ns rt (pruned ns ch)"
proof -
  have "filter (\<lambda>nm. \<not> should_omit ns nm) (map node_name (pruned ns ch)) = kept_dirs ns ch"
    unfolding pruned_def kept_dirs_def by (induction ch) auto
  moreover have "walk_items ns rt ch =
      map (\<lambda>nm. \<lparr>itype = ''File'', path = relpath (rt @ [nm]), root = rt\<rparr>) (kept_files ns ch)
      @ map (\<lambda>nm. \<lparr>itype = ''Directory'', path = relpath (rt @ [nm]), root = rt\<rparr>)
          (filter (\<lambda>nm. \<not> should_omit ns nm) (map node_name (pruned ns ch)))
      @ walk_dirs ns rt (pruned ns ch)"
    unfolding walk_items.simps(1) [of ns rt ch] Let_def kept_files_def pruned_def ..
  ultimately show ?thesis by (simp add: dir_records_def)
qed

lemma root_dir_records: "it \<in> set (dir_records ns rt ch) \<Longrightarrow> root it = rt"
  by (auto simp: dir_records_def)

lemma walk_prefix:
  "it \<in> set (walk_items ns rt ch) \<Longrightarrow> prefix rt (root it)"
  "it \<in> set (walk_dirs ns rt ds) \<Longrightarrow> \<exists>d \<in> set ds. prefix (rt @ [node_name d]) (root it)"
proof (induction ns rt ch and ns rt ds arbitrary: it and it rule: walk_items_walk_dirs.induct)
  case (1 omit_names rt children)
  from "1.prems" have "it \<in> set (dir_records omit_names rt children)
      \<or> it \<in> set (walk_dirs omit_names rt (pruned omit_names children))"
    by (simp add: walk_items_eq)
  then show ?case
  proof
    assume "it \<in> set (dir_records omit_names rt children)"
    then show ?thesis by (simp add: root_dir_records)
  next
    assume "it \<in> set (walk_dirs omit_names rt (pruned omit_names children))"
    from "1.IH" [OF refl refl this [unfolded pruned_def]]
    show ?thesis by (auto dest: append_prefixD)
  qed
next
  case (2 omit_names rt)
  then show ?case by simp
next
  case (3 omit_names rt d ds)
  then show ?case by auto
qed

lemma lookup_children:
  "cs \<noteq> [] \<Longrightarrow> children_of a = children_of b \<Longrightarrow> lookup cs a = lookup cs b"
  by (cases cs) auto

lemma find_distinct_name:
  "distinct (map node_name ch) \<Longrightarrow> k \<in> set ch \<Longrightarrow>
     find (\<lambda>x. node_name x = node_name k) ch = Some k"
  by (induction ch) (auto simp: image_iff)

lemma in_dir_records:
  "it \<in> set (dir_records ns rt ch) \<longleftrightarrow>
     (\<exists>k \<in> set ch. \<not> should_omit ns (node_name k) \<and> it = entry_record (rt @ [node_name k]) k)"
  by (auto simp: dir_records_def kept_files_def kept_dirs_def entry_record_def image_iff)

lemma in_pruned: "d \<in> set (pruned ns ch) \<longleftrightarrow> d \<in> set ch \<and> is_dir d \<and> \<not> should_omit ns (node_name d)"
  by (auto simp: pruned_def)

lemma walk_sound:
  "wf_children ch \<Longrightarrow> it \<in> set (walk_items ns rt ch) \<Longrightarrow>
     \<exists>cs nd. cs \<noteq> [] \<and> lookup cs (Dir n ch) = Some nd \<and> (\<forall>c \<in> set cs. \<not> should_omit ns c)
        \<and> it = entry_record (rt @ cs) nd"
  "\<forall>d \<in> set ds. wf_node d \<and> \<not> should_omit ns (node_name d) \<Longrightarrow>
   it \<in> set (walk_dirs ns rt ds) \<Longrightarrow>
     \<exists>d \<in> set ds. \<exists>cs nd. cs \<noteq> [] \<and> lookup cs d = Some nd \<and> (\<forall>c \<in> set cs. \<not> should_omit ns c)
        \<and> it = entry_record (rt @ node_name d # cs) nd"
proof (induction ns rt ch and ns rt ds arbitrary: it n and it rule: walk_items_walk_dirs.induct)
  case (1 omit_names rt children)
  from "1.prems"(1) have dist: "distinct (map node_name children)"
    and wf: "\<forall>k \<in> set children. wf_node k"
    by (auto simp: wf_children_def)
  from "1.prems"(2) consider
    (here) "it \<in> set (dir_records omit_names rt children)"
    | (below) "it \<in> set (walk_dirs omit_names rt (pruned omit_names children))"
    by (auto simp: walk_items_eq)
  then show ?case
  proof cases
    case here
    then obtain k where k: "k \<in> set children" "\<not> should_omit omit_names (node_name k)"
      "it = entry_record (rt @ [node_name k]) k"
      by (auto simp: in_dir_records)
    have "lookup [node_name k] (Dir n children) = Some k"
      using find_distinct_name [OF dist k(1)] by simp
    with k show ?thesis by (intro exI [of _ "[node_name k]"] exI [of _ k]) simp
  next
    case below
    have "\<forall>d \<in> set (pruned omit_names children). wf_node d \<and> \<not> should_omit omit_names (node_name d)"
      using wf by (auto simp: in_pruned)
    from "1.IH" [OF refl refl this [unfolded pruned_def] below [unfolded pruned_def]]
    obtain d cs nd where d: "d \<in> set (pruned omit_names children)" and cs: "cs \<noteq> []"
      and lk: "lookup cs d = Some nd" and kept: "\<forall>c \<in> set cs. \<not> should_omit omit_names c"
      and it: "it = entry_record (rt @ node_name d # cs) nd"
      unfolding pruned_def by blast
    from d have dch: "d \<in> set children" and dk: "\<not> should_omit omit_names (node_name d)"
      by (auto simp: in_pruned)
    have "lookup (node_name d # cs) (Dir n children) = Some nd"
      using find_distinct_name [OF dist dch] lk by simp
    with kept dk it show ?thesis
      by (intro exI [of _ "node_name d # cs"] exI [of _ nd]) simp
  qed
next
  case (2 omit_names rt)
  then show ?case by simp
next
  case (3 omit_names rt d ds)
  from "3.prems"(2) consider
    (first) "it \<in> set (walk_items omit_names (rt @ [node_name d]) (children_of d))"
    | (rest) "it \<in> set (walk_dirs omit_names rt ds)"
    by auto
  then show ?case
  proof cases
    case first
    have "wf_children (children_of d)" using "3.prems"(1) by (simp add: wf_children_of)
    from "3.IH"(1) [OF this first, of "node_name d"]
    obtain cs nd where cs: "cs \<noteq> []"
      and lk: "lookup cs (Dir (node_name d) (children_of d)) = Some nd"
      and kept: "\<forall>c \<in> set cs. \<not> should_omit omit_names c"
      and it: "it = entry_record ((rt @ [node_name d]) @ cs) nd"
      by blast
    have "lookup cs d = Some nd"
      using lookup_children [OF cs, of d "Dir (node_name d) (children_of d)"] lk by simp
    with cs kept it show ?thesis by auto
  next
    case rest
    from "3.IH"(2) [OF _ rest] "3.prems"(1) show ?thesis by auto
  qed
qed

lemma walk_dirs_mem:
  "d \<in> set ds \<Longrightarrow> it \<in> set (walk_items ns (rt @ [node_name d]) (children_of d)) \<Longrightarrow>
     it \<in> set (walk_dirs ns rt ds)"
  by (induction ds) auto

lemma find_Some_name: "find (\<lambda>x. node_name x = c) ch = Some k \<Longrightarrow> k \<in> set ch \<and> node_name k = c"
  by (induction ch) (auto split: if_splits)

lemma walk_complete:
  "cs \<noteq> [] \<Longrightarrow> lookup cs (Dir n ch) = Some nd \<Longrightarrow> \<forall>c \<in> set cs. \<not> should_omit ns c \<Longrightarrow>
     entry_record (rt @ cs) nd \<in> set (walk_items ns rt ch)"
proof (induction cs arbitrary: n ch rt)
  case Nil
  then show ?case by simp
next
  case (Cons c cs)
  from Cons.prems(2) obtain k where fk: "find (\<lambda>x. node_name x = c) ch = Some k"
    and lk: "lookup cs k = Some nd"
    by (auto split: option.splits)
  from find_Some_name [OF fk] have k: "k \<in> set ch" "node_name k = c" by auto
  show ?case
  proof (cases cs)
    case Nil
    with lk have "nd = k" by simp
    with k Cons.prems(3) Nil show ?thesis
      by (auto simp: walk_items_eq in_dir_records)
  next
    case (Cons c' cs')
    with lk have "children_of k \<noteq> []" by (auto split: option.splits)
    then have dir: "is_dir k" by (cases k) auto
    with k Cons.prems(3) have kp: "k \<in> set (pruned ns ch)" by (simp add: in_pruned)
    have "lookup cs (Dir c (children_of k)) = Some nd"
      using lookup_children [of cs k "Dir c (children_of k)"] lk Cons by simp
    from Cons.IH [OF _ this, of "rt @ [c]"] Cons Cons.prems(3)
    have "entry_record ((rt @ [c]) @ cs) nd \<in> set (walk_items ns (rt @ [c]) (children_of k))"
      by simp
    with walk_dirs_mem [OF kp, of _ ns rt] k show ?thesis
      by (simp add: walk_items_eq)
  qed
qed

subsection \<open>The records of one directory\<close>

lemma filter_root_dir_records:
  "filter (\<lambda>it. root it = r) (dir_records ns rt ch) = (if r = rt then dir_records ns rt ch else [])"
  by (auto simp: filter_empty_conv filter_id_conv dest: root_dir_records)

lemma prefix_snoc_same: "prefix (rt @ [a]) r \<Longrightarrow> prefix (rt @ [b]) r \<Longrightarrow> a = b"
  by (auto simp: prefix_def append_eq_append_conv2 Cons_eq_append_conv)

lemma filter_root_walk_dirs_none:
  "\<forall>d \<in> set ds. \<not> prefix (rt @ [node_name d]) r \<Longrightarrow>
     filter (\<lambda>it. root it = r) (walk_dirs ns rt ds) = []"
  using walk_prefix(2) [of _ ns rt ds] by (fastforce simp: filter_empty_conv)

lemma filter_root_walk_items_none:
  "\<not> prefix rt r \<Longrightarrow> filter (\<lambda>it. root it = r) (walk_items ns rt ch) = []"
  using walk_prefix(1) [of _ ns rt ch] by (fastforce simp: filter_empty_conv)

lemma filter_root_walk_dirs_one:
  "distinct (map node_name ds) \<Longrightarrow> k \<in> set ds \<Longrightarrow> prefix (rt @ [node_name k]) r \<Longrightarrow>
     filter (\<lambda>it. root it = r) (walk_dirs ns rt ds)
       = filter (\<lambda>it. root it = r) (walk_items ns (rt @ [node_name k]) (children_of k))"
proof (induction ds)
  case Nil
  then show ?case by simp
next
  case (Cons d ds)
  show ?case
  proof (cases "d = k")
    case True
    have "\<forall>d' \<in> set ds. \<not> prefix (rt @ [node_name d']) r"
    proof
      fix d' assume d': "d' \<in> set ds"
      from Cons.prems(1) True have "node_name k \<notin> node_name ` set ds" by simp
      with d' have "node_name d' \<noteq> node_name k" by (metis imageI)
      then show "\<not> prefix (rt @ [node_name d']) r"
        using prefix_snoc_same [OF _ Cons.prems(3), of "node_name d'"] by auto
    qed
    from filter_root_walk_dirs_none [OF this, of ns] have "filter (\<lambda>it. root it = r) (walk_dirs ns rt ds) = []" .
    with True show ?thesis by simp
  next
    case False
    with Cons.prems(2) have k: "k \<in> set ds" by simp
    from Cons.prems(1) have "node_name d \<notin> node_name ` set ds" by simp
    with k have "node_name d \<noteq> node_name k" by (metis imageI)
    then have "\<not> prefix (rt @ [node_name d]) r"
      using prefix_snoc_same [OF _ Cons.prems(3), of "node_name d"] by auto
    from filter_root_walk_items_none [OF this, of ns "children_of d"]
    have 1: "filter (\<lambda>it. root it = r) (walk_items ns (rt @ [node_name d]) (children_of d)) = []" .
    from Cons.prems(1) have "distinct (map node_name ds)" by simp
    from Cons.IH [OF this k Cons.prems(3)]
    have 2: "filter (\<lambda>it. root it = r) (walk_dirs ns rt ds) =
      filter (\<lambda>it. root it = r) (walk_items ns (rt @ [node_name k]) (children_of k))" .
    show ?thesis by (simp add: 1 2)
  qed
qed

lemma distinct_pruned: "distinct (map node_name ch) \<Longrightarrow> distinct (map node_name (pruned ns ch))"
  by (simp add: pruned_def distinct_map_filter)

lemma filter_root_walk:
  "wf_children ch \<Longrightarrow> lookup cs (Dir n ch) = Some (Dir n' ch') \<Longrightarrow>
   \<forall>c \<in> set cs. \<not> should_omit ns c \<Longrightarrow>
     filter (\<lambda>it. root it = rt @ cs) (walk_items ns rt ch) = dir_records ns (rt @ cs) ch'"
proof (induction cs arbitrary: rt n ch)
  case Nil
  have "\<forall>d \<in> set (pruned ns ch). \<not> prefix (rt @ [node_name d]) rt"
    by (simp add: prefix_def)
  from filter_root_walk_dirs_none [OF this] Nil.prems(2) show ?case
    by (simp add: walk_items_eq filter_root_dir_records)
next
  case (Cons c cs)
  from Cons.prems(2) obtain k where fk: "find (\<lambda>x. node_name x = c) ch = Some k"
    and lk: "lookup cs k = Some (Dir n' ch')"
    by (auto split: option.splits)
  from find_Some_name [OF fk] have k: "k \<in> set ch" "node_name k = c" by auto
  have dir: "is_dir k"
  proof (cases cs)
    case Nil
    with lk show ?thesis by simp
  next
    case (Cons c' cs')
    with lk have "children_of k \<noteq> []" by (auto split: option.splits)
    then show ?thesis by (cases k) auto
  qed
  with k Cons.prems(3) have kp: "k \<in> set (pruned ns ch)" by (simp add: in_pruned)
  from Cons.prems(1) k have "wf_node k" by (simp add: wf_children_def)
  then have wfk: "wf_children (children_of k)" by (rule wf_children_of)
  from Cons.prems(1) have dist: "distinct (map node_name (pruned ns ch))"
    by (simp add: wf_children_def distinct_pruned)
  have lk': "lookup cs (Dir c (children_of k)) = Some (Dir n' ch')"
  proof (cases cs)
    case Nil
    with lk dir k show ?thesis by (cases k) auto
  next
    case (Cons c' cs')
    then show ?thesis using lookup_children [of cs "Dir c (children_of k)" k] lk by simp
  qed
  have pre: "prefix (rt @ [node_name k]) (rt @ c # cs)"
    using k by (simp add: prefix_def)
  have "filter (\<lambda>it. root it = rt @ c # cs) (walk_items ns rt ch)
      = filter (\<lambda>it. root it = rt @ c # cs) (walk_dirs ns rt (pruned ns ch))"
    by (simp add: walk_items_eq filter_root_dir_records)
  also have "\<dots> = filter (\<lambda>it. root it = (rt @ [c]) @ cs) (walk_items ns (rt @ [c]) (children_of k))"
    using filter_root_walk_dirs_one [OF dist kp pre, of ns] k by simp
  also have "\<dots> = dir_records ns ((rt @ [c]) @ cs) ch'"
    using Cons.IH [OF wfk lk', of "rt @ [c]"] Cons.prems(3) by simp
  finally show ?case by simp
qed


subsection \<open>Path strings name entries\<close>

lemma lookup_append:
  "lookup (xs @ ys) t = (case lookup xs t of None \<Rightarrow> None | Some k \<Rightarrow> lookup ys k)"
  by (induction xs arbitrary: t) (auto split: option.splits)

lemma wf_node_name: "wf_node k \<Longrightarrow> valid_name (node_name k)"
  by (cases k) auto

lemma lookup_wf:
  "wf_children ch \<Longrightarrow> lookup cs (Dir n ch) = Some nd \<Longrightarrow> cs \<noteq> [] \<Longrightarrow>
     (\<forall>c \<in> set cs. valid_name c) \<and> wf_node nd"
proof (induction cs arbitrary: n ch)
  case Nil
  then show ?case by simp
next
  case (Cons c cs)
  from Cons.prems(2) obtain k where fk: "find (\<lambda>x. node_name x = c) ch = Some k"
    and lk: "lookup cs k = Some nd"
    by (auto split: option.splits)
  from find_Some_name [OF fk] have k: "k \<in> set ch" "node_name k = c" by auto
  with Cons.prems(1) have wfk: "wf_node k" by (simp add: wf_children_def)
  show ?case
  proof (cases cs)
    case Nil
    with lk wfk k wf_node_name [OF wfk] show ?thesis by simp
  next
    case (Cons c' cs')
    then have ne: "cs \<noteq> []" by simp
    have "lookup cs (Dir c (children_of k)) = Some nd"
      using lookup_children [OF ne, of "Dir c (children_of k)" k] lk by simp
    from Cons.IH [OF wf_children_of [OF wfk] this ne] k wf_node_name [OF wfk]
    show ?thesis by simp
  qed
qed

lemma lookup_wf_children:
  assumes "wf_children ch" and "lookup cs (Dir n ch) = Some nd"
  shows "wf_children (children_of nd)"
proof (cases "cs = []")
  case True
  then show ?thesis using assms by auto
next
  case False
  from lookup_wf [OF assms False] show ?thesis by (simp add: wf_children_of)
qed

lemma valid_name_sepfree: "valid_name c \<Longrightarrow> CHR ''/'' \<notin> set c"
  by (simp add: valid_name_def)

lemma join_path_inj:
  assumes "xs \<noteq> []" "ys \<noteq> []" "\<forall>c \<in> set xs. valid_name c" "\<forall>c \<in> set ys. valid_name c"
    and "join_path xs = join_path ys"
  shows "xs = ys"
proof -
  have "\<forall>c \<in> set xs. CHR ''/'' \<notin> set c" "\<forall>c \<in> set ys. CHR ''/'' \<notin> set c"
    using assms(3,4) by (simp_all add: valid_name_def)
  then have "splitc CHR ''/'' (join_path xs) = xs" "splitc CHR ''/'' (join_path ys) = ys"
    using assms(1,2) by (simp_all add: splitc_join_path)
  with assms(5) show ?thesis by metis
qed

lemma join_path_not_dot:
  assumes "xs \<noteq> []" "\<forall>c \<in> set xs. valid_name c"
  shows "join_path xs \<noteq> ''.''" "join_path xs \<noteq> ''./''"
proof -
  have "\<forall>c \<in> set xs. CHR ''/'' \<notin> set c"
    using assms(2) by (simp add: valid_name_def)
  then have s: "splitc CHR ''/'' (join_path xs) = xs"
    using assms(1) by (simp add: splitc_join_path)
  show "join_path xs \<noteq> ''.''"
  proof
    assume "join_path xs = ''.''"
    with s have "xs = [''.'']" by simp
    with assms(2) show False by (simp add: valid_name_def)
  qed
  show "join_path xs \<noteq> ''./''"
  proof
    assume "join_path xs = ''./''"
    with s have "xs = [''.'', []]" by simp
    with assms(2) show False by (simp add: valid_name_def)
  qed
qed

lemma walk_shape:
  assumes "wf_children ch" and "it \<in> set (walk_items ns [] ch)"
  obtains cs nd where "cs \<noteq> []" "lookup cs (Dir n ch) = Some nd"
    "\<forall>c \<in> set cs. \<not> should_omit ns c" "\<forall>c \<in> set cs. valid_name c" "it = entry_record cs nd"
proof -
  from walk_sound(1) [OF assms, of n] obtain cs nd where
    c: "cs \<noteq> []" "lookup cs (Dir n ch) = Some nd" "\<forall>c \<in> set cs. \<not> should_omit ns c"
      "it = entry_record ([] @ cs) nd" by blast
  from lookup_wf [OF assms(1) c(2) c(1)] have "\<forall>c \<in> set cs. valid_name c" by simp
  with c that show thesis by simp
qed

lemma parent_path_entry:
  assumes "cs \<noteq> []" "\<forall>c \<in> set cs. valid_name c" "cs' \<noteq> []" "\<forall>c \<in> set cs'. valid_name c"
  shows "parent_path_of (entry_record cs nd) = relpath cs' \<longleftrightarrow> butlast cs = cs'"
proof (cases "butlast cs = []")
  case True
  then have "parent_path_of (entry_record cs nd) = ''./''"
    by (simp add: parent_path_of_def entry_record_def relpath_def)
  moreover have "relpath cs' \<noteq> ''./''"
    using join_path_not_dot(2) [OF assms(3,4)] assms(3) by (simp add: relpath_def)
  ultimately show ?thesis using True assms(3) by auto
next
  case False
  have v: "\<forall>c \<in> set (butlast cs). valid_name c"
    using assms(2) by (meson in_set_butlastD)
  have "relpath (butlast cs) = join_path (butlast cs)"
    using False by (simp add: relpath_def)
  moreover have "join_path (butlast cs) \<noteq> ''.''"
    by (rule join_path_not_dot(1) [OF False v])
  ultimately have pp: "parent_path_of (entry_record cs nd) = join_path (butlast cs)"
    by (simp add: parent_path_of_def entry_record_def)
  have rp: "relpath cs' = join_path cs'" using assms(3) by (simp add: relpath_def)
  show ?thesis
  proof
    assume "parent_path_of (entry_record cs nd) = relpath cs'"
    with pp rp have "join_path (butlast cs) = join_path cs'" by simp
    then show "butlast cs = cs'" by (rule join_path_inj [OF False assms(3) v assms(4)])
  next
    assume "butlast cs = cs'"
    with pp rp show "parent_path_of (entry_record cs nd) = relpath cs'" by simp
  qed
qed

lemma parent_path_root:
  assumes "cs \<noteq> []" "\<forall>c \<in> set cs. valid_name c"
  shows "parent_path_of (entry_record cs nd) = ''./'' \<longleftrightarrow> butlast cs = []"
proof (cases "butlast cs = []")
  case True
  then show ?thesis by (simp add: parent_path_of_def entry_record_def relpath_def)
next
  case False
  have v: "\<forall>c \<in> set (butlast cs). valid_name c"
    using assms(2) by (meson in_set_butlastD)
  have "relpath (butlast cs) = join_path (butlast cs)"
    using False by (simp add: relpath_def)
  moreover have "join_path (butlast cs) \<noteq> ''.''"
    by (rule join_path_not_dot(1) [OF False v])
  ultimately have "parent_path_of (entry_record cs nd) = join_path (butlast cs)"
    by (simp add: parent_path_of_def entry_record_def)
  with join_path_not_dot(2) [OF False v] False show ?thesis by simp
qed


subsection \<open>The children of an entry, and distinct paths\<close>

lemma root_entry_record [simp]: "root (entry_record cs nd) = butlast cs"
  by (simp add: entry_record_def)

lemma path_entry_record [simp]: "path (entry_record cs nd) = relpath cs"
  by (simp add: entry_record_def)

lemma walk_root_filter:
  assumes wf: "wf_children ch" and lk: "lookup cs (Dir n ch) = Some nd"
    and kept: "\<forall>c \<in> set cs. \<not> should_omit ns c"
  shows "filter (\<lambda>it. root it = cs) (walk_items ns [] ch) = dir_records ns cs (children_of nd)"
proof (cases nd)
  case (Dir n' ch')
  with filter_root_walk [OF wf _ kept, of n n' ch' "[]"] lk show ?thesis by simp
next
  case (File n' c')
  have "root it \<noteq> cs" if "it \<in> set (walk_items ns [] ch)" for it
  proof
    assume r: "root it = cs"
    from walk_shape [OF wf that, of n] obtain cs2 nd2 where
      c: "cs2 \<noteq> []" "lookup cs2 (Dir n ch) = Some nd2" "it = entry_record cs2 nd2"
      by metis
    from c(1) have "cs2 = butlast cs2 @ [last cs2]" by simp
    with c(2) have "lookup (butlast cs2 @ [last cs2]) (Dir n ch) = Some nd2" by simp
    with r c(3) lk File show False by (simp add: lookup_append)
  qed
  then have "filter (\<lambda>it. root it = cs) (walk_items ns [] ch) = []"
    by (simp add: filter_empty_conv)
  with File show ?thesis by (simp add: dir_records_def kept_files_def kept_dirs_def)
qed

lemma walk_parent_filter:
  assumes wf: "wf_children ch" and lk: "lookup cs (Dir n ch) = Some nd" and ne: "cs \<noteq> []"
    and kept: "\<forall>c \<in> set cs. \<not> should_omit ns c"
  shows "filter (\<lambda>it. parent_path_of it = relpath cs) (walk_items ns [] ch)
           = dir_records ns cs (children_of nd)"
proof -
  from lookup_wf [OF wf lk ne] have v: "\<forall>c \<in> set cs. valid_name c" by simp
  have "parent_path_of it = relpath cs \<longleftrightarrow> root it = cs"
    if "it \<in> set (walk_items ns [] ch)" for it
  proof -
    from walk_shape [OF wf that, of n] obtain cs2 nd2 where
      c: "cs2 \<noteq> []" "\<forall>c \<in> set cs2. valid_name c" "it = entry_record cs2 nd2"
      by metis
    from parent_path_entry [OF c(1,2) ne v, of nd2] c(3) show ?thesis by simp
  qed
  then have "filter (\<lambda>it. parent_path_of it = relpath cs) (walk_items ns [] ch)
      = filter (\<lambda>it. root it = cs) (walk_items ns [] ch)"
    by (intro filter_cong) auto
  with walk_root_filter [OF wf lk kept] show ?thesis by simp
qed

lemma walk_top_filter:
  assumes wf: "wf_children ch"
  shows "filter (\<lambda>it. parent_path_of it = ''./'') (walk_items ns [] ch) = dir_records ns [] ch"
proof -
  have "parent_path_of it = ''./'' \<longleftrightarrow> root it = []"
    if "it \<in> set (walk_items ns [] ch)" for it
  proof -
    from walk_shape [OF wf that, of "[]"] obtain cs2 nd2 where
      c: "cs2 \<noteq> []" "\<forall>c \<in> set cs2. valid_name c" "it = entry_record cs2 nd2"
      by metis
    from parent_path_root [OF c(1,2), of nd2] c(3) show ?thesis by simp
  qed
  then have "filter (\<lambda>it. parent_path_of it = ''./'') (walk_items ns [] ch)
      = filter (\<lambda>it. root it = []) (walk_items ns [] ch)"
    by (intro filter_cong) auto
  with walk_root_filter [OF wf, of "[]" "[]" _ ns] show ?thesis by simp
qed

lemma join_path_snoc: "r \<noteq> [] \<Longrightarrow> join_path (r @ [nm]) = join_path r @ ''/'' @ nm"
  by (induction r rule: join_path.induct) auto

lemma relpath_snoc_inj: "relpath (r @ [a]) = relpath (r @ [b]) \<Longrightarrow> a = b"
  by (cases "r = []") (auto simp: relpath_def join_path_snoc)

lemma kept_names_distinct:
  assumes "distinct (map node_name ch)"
  shows "distinct (kept_files ns ch @ kept_dirs ns ch)"
proof -
  have "distinct (map node_name (filter (\<lambda>k. \<not> is_dir k) ch) @ map node_name (filter is_dir ch))"
    using assms
  proof (induction ch)
    case Nil
    then show ?case by simp
  next
    case (Cons k ch)
    then show ?case by (auto simp: image_iff)
  qed
  then show ?thesis
    by (auto simp: kept_files_def kept_dirs_def)
qed

lemma dir_records_distinct:
  assumes "distinct (map node_name ch)"
  shows "distinct (map path (dir_records ns r ch))"
proof -
  have "map path (dir_records ns r ch)
      = map (\<lambda>nm. relpath (r @ [nm])) (kept_files ns ch @ kept_dirs ns ch)"
    by (simp add: dir_records_def comp_def)
  moreover have "inj_on (\<lambda>nm. relpath (r @ [nm])) (set (kept_files ns ch @ kept_dirs ns ch))"
    by (rule inj_onI) (rule relpath_snoc_inj)
  ultimately show ?thesis
    using kept_names_distinct [OF assms, of ns] by (simp only: distinct_map)
qed

lemma distinct_by_groups:
  assumes "\<And>x y. x \<in> set xs \<Longrightarrow> y \<in> set xs \<Longrightarrow> f x = f y \<Longrightarrow> g x = g y"
    and "\<And>r. distinct (map f (filter (\<lambda>x. g x = r) xs))"
  shows "distinct (map f xs)"
  using assms
proof (induction xs)
  case Nil
  then show ?case by simp
next
  case (Cons x xs)
  have "f x \<notin> f ` set xs"
  proof
    assume "f x \<in> f ` set xs"
    then obtain y where y: "y \<in> set xs" "f y = f x" by auto
    with Cons.prems(1) [of x y] have "g y = g x" by simp
    with Cons.prems(2) [of "g x"] y show False by (auto simp: image_iff)
  qed
  moreover have "distinct (map f xs)"
  proof (rule Cons.IH)
    show "g a = g b" if "a \<in> set xs" "b \<in> set xs" "f a = f b" for a b
      using Cons.prems(1) [of a b] that by simp
    show "distinct (map f (filter (\<lambda>x. g x = r) xs))" for r
      using Cons.prems(2) [of r] by (simp split: if_splits)
  qed
  ultimately show ?case by simp
qed


lemma walk_paths_distinct:
  assumes wf: "wf_children ch"
  shows "distinct (map path (walk_items ns [] ch))"
proof (rule distinct_by_groups [where g = root])
  fix x y
  assume x: "x \<in> set (walk_items ns [] ch)" and y: "y \<in> set (walk_items ns [] ch)"
    and eq: "path x = path y"
  from walk_shape [OF wf x, of "[]"] obtain cs nd where
    c: "cs \<noteq> []" "\<forall>c \<in> set cs. valid_name c" "x = entry_record cs nd"
    by metis
  from walk_shape [OF wf y, of "[]"] obtain cs' nd' where
    c': "cs' \<noteq> []" "\<forall>c \<in> set cs'. valid_name c" "y = entry_record cs' nd'"
    by metis
  from eq c c' have "join_path cs = join_path cs'" by (simp add: relpath_def)
  then have "cs = cs'" by (rule join_path_inj [OF c(1) c'(1) c(2) c'(2)])
  with c(3) c'(3) show "root x = root y" by simp
next
  fix r
  show "distinct (map path (filter (\<lambda>x. root x = r) (walk_items ns [] ch)))"
  proof (cases "filter (\<lambda>x. root x = r) (walk_items ns [] ch) = []")
    case True
    then show ?thesis by simp
  next
    case False
    then obtain it where it: "it \<in> set (walk_items ns [] ch)" "root it = r"
      by (auto simp: filter_empty_conv)
    from walk_shape [OF wf it(1), of "[]"] obtain cs nd where
      c: "cs \<noteq> []" "lookup cs (Dir [] ch) = Some nd" "\<forall>c \<in> set cs. \<not> should_omit ns c"
        "it = entry_record cs nd"
      by metis
    from c(1) have split: "cs = butlast cs @ [last cs]" by simp
    with c(2) have "lookup (butlast cs @ [last cs]) (Dir [] ch) = Some nd" by simp
    then obtain k where k: "lookup (butlast cs) (Dir [] ch) = Some k"
      by (auto simp: lookup_append split: option.splits)
    have kept: "\<forall>c \<in> set (butlast cs). \<not> should_omit ns c"
      using c(3) by (meson in_set_butlastD)
    from it(2) c(4) have r: "r = butlast cs" by simp
    from lookup_wf_children [OF wf k] have "distinct (map node_name (children_of k))"
      by (simp add: wf_children_def)
    from dir_records_distinct [OF this] walk_root_filter [OF wf k kept] r
    show ?thesis by simp
  qed
qed


section \<open>The two loops of the builder\<close>

subsection \<open>First loop: one entity per record, the last record of a path wins\<close>

lemma make_entity_fields:
  assumes "make_entity env directory it = Inr ent"
  shows "at_id ent = path it" "at_type ent = itype it" "name ent = basename (path it)"
    "dateCreated ent = None" "hasPart ent = None" "isDescribedBy ent = None"
  using assms
  by (auto simp: make_entity_def Let_def split: if_splits sum.splits)

lemma make_entity_checksum:
  assumes "make_entity env directory it = Inr ent"
  shows "contentChecksum ent =
     (if described_kind it
      then Some [(''MD5'', projr (morpc_md5 env (resolve directory (path it))))] else None)"
  using assms
  by (auto simp: make_entity_def Let_def split: if_splits sum.splits)

lemma make_entity_description:
  assumes "make_entity env directory it = Inr ent"
  shows "description ent \<noteq> None \<longleftrightarrow> described_kind it \<and> path_exists env (resource_file_of it)"
  using assms
  by (auto simp: make_entity_def Let_def split: if_splits sum.splits)

lemma first_pass_graph:
  "first_pass env directory cs (g, m) = Inr (g', m') \<Longrightarrow>
     \<exists>es. g' = g @ es \<and> map (make_entity env directory) cs = map Inr es"
proof (induction cs arbitrary: g m)
  case Nil
  then show ?case by simp
next
  case (Cons it its)
  from Cons.prems obtain ent where ent: "make_entity env directory it = Inr ent"
    and rest: "first_pass env directory its (g @ [ent], m(path it \<mapsto> length g)) = Inr (g', m')"
    by (auto split: sum.splits)
  from Cons.IH [OF rest] obtain es where "g' = (g @ [ent]) @ es"
    "map (make_entity env directory) its = map Inr es" by blast
  with ent show ?case by (intro exI [of _ "ent # es"]) simp
qed

lemma first_pass_map_other:
  "first_pass env directory cs (g, m) = Inr (g', m') \<Longrightarrow> p \<notin> path ` set cs \<Longrightarrow> m' p = m p"
  by (induction cs arbitrary: g m) (auto split: sum.splits)

lemma first_pass_map_last:
  "first_pass env directory cs (g, m) = Inr (g', m') \<Longrightarrow> i < length cs \<Longrightarrow>
   (\<forall>k. i < k \<and> k < length cs \<longrightarrow> path (cs ! k) \<noteq> path (cs ! i)) \<Longrightarrow>
   m' (path (cs ! i)) = Some (length g + i)"
proof (induction cs arbitrary: g m i)
  case Nil
  then show ?case by simp
next
  case (Cons it its)
  from Cons.prems(1) obtain ent where ent: "make_entity env directory it = Inr ent"
    and rest: "first_pass env directory its (g @ [ent], m(path it \<mapsto> length g)) = Inr (g', m')"
    by (auto split: sum.splits)
  show ?case
  proof (cases i)
    case 0
    have "path it \<notin> path ` set its"
    proof
      assume "path it \<in> path ` set its"
      then obtain k where "k < length its" "path (its ! k) = path it"
        by (auto simp: in_set_conv_nth)
      with Cons.prems(3) [rule_format, of "Suc k"] 0 show False by simp
    qed
    from first_pass_map_other [OF rest this] 0 show ?thesis by simp
  next
    case (Suc j)
    have "m' (path (its ! j)) = Some (length (g @ [ent]) + j)"
    proof (rule Cons.IH [OF rest])
      show "j < length its" using Cons.prems(2) Suc by simp
      show "\<forall>k. j < k \<and> k < length its \<longrightarrow> path (its ! k) \<noteq> path (its ! j)"
        using Cons.prems(3) [rule_format, of "Suc _"] Suc by auto
    qed
    with Suc show ?thesis by simp
  qed
qed

lemma first_pass_dom:
  "first_pass env directory cs (g, m) = Inr (g', m') \<Longrightarrow> dom m' = dom m \<union> path ` set cs"
  by (induction cs arbitrary: g m) (auto split: sum.splits)

lemma first_pass_range:
  "first_pass env directory cs (g, m) = Inr (g', m') \<Longrightarrow> m' p = Some j \<Longrightarrow>
     m p = Some j \<or> (length g \<le> j \<and> j < length g + length cs)"
proof (induction cs arbitrary: g m)
  case Nil
  then show ?case by simp
next
  case (Cons it its)
  from Cons.prems(1) obtain ent where ent: "make_entity env directory it = Inr ent"
    and rest: "first_pass env directory its (g @ [ent], m(path it \<mapsto> length g)) = Inr (g', m')"
    by (auto split: sum.splits)
  from Cons.IH [OF rest Cons.prems(2)] show ?case
    by (auto split: if_splits)
qed


subsection \<open>Second loop: containment and description links\<close>

text \<open>The keys of an entity the second loop never writes.\<close>

definition base_fields ::
  "entity \<Rightarrow> string \<times> string \<times> string \<times> string option \<times> pyval option \<times> (string \<times> string) list option" where
  "base_fields e = (at_id e, at_type e, name e, dateCreated e, description e, contentChecksum e)"

lemma nth_update_cases: "xs[i := x] ! j = (if i = j \<and> j < length xs then x else xs ! j)"
  by (cases "i = j") (auto simp: not_less list_update_beyond)

lemma length_add_part [simp]: "length (add_part m it g) = length g"
  by (simp add: add_part_def split: option.splits)

lemma base_fields_add_part [simp]: "base_fields (add_part m it g ! j) = base_fields (g ! j)"
  by (cases "m (parent_path_of it)")
    (auto simp: add_part_def base_fields_def nth_update_cases )

lemma isDescribedBy_add_part [simp]: "isDescribedBy (add_part m it g ! j) = isDescribedBy (g ! j)"
  by (cases "m (parent_path_of it)") (auto simp: add_part_def nth_update_cases)

lemma hasPart_add_part:
  "j < length g \<Longrightarrow> hasPart (add_part m it g ! j) =
     (if m (parent_path_of it) = Some j
      then Some ((case hasPart (g ! j) of None \<Rightarrow> [] | Some ps \<Rightarrow> ps) @ [path it])
      else hasPart (g ! j))"
  by (cases "m (parent_path_of it)") (auto simp: add_part_def nth_update_cases)

lemma length_link_resource: "link_resource m it g = Inr g' \<Longrightarrow> length g' = length g"
  by (auto simp: link_resource_def split: if_splits option.splits)

lemma base_fields_link_resource:
  "link_resource m it g = Inr g' \<Longrightarrow> base_fields (g' ! j) = base_fields (g ! j)"
  by (auto simp: link_resource_def base_fields_def nth_update_cases split: if_splits option.splits)

lemma hasPart_link_resource:
  "link_resource m it g = Inr g' \<Longrightarrow> hasPart (g' ! j) = hasPart (g ! j)"
  by (auto simp: link_resource_def nth_update_cases split: if_splits option.splits)

lemma isDescribedBy_link_resource:
  "link_resource m it g = Inr g' \<Longrightarrow> j < length g \<Longrightarrow>
     isDescribedBy (g' ! j) =
       (if described_kind it \<and> m (resource_file_of it) \<noteq> None \<and> m (path it) = Some j
        then Some (resource_file_of it) else isDescribedBy (g ! j))"
  by (auto simp: link_resource_def nth_update_cases split: if_splits option.splits)

lemma link_resource_total:
  "m (path it) \<noteq> None \<Longrightarrow> \<exists>g'. link_resource m it g = Inr g'"
  by (auto simp: link_resource_def)

lemma second_pass_length: "second_pass m cs g = Inr g' \<Longrightarrow> length g' = length g"
  by (induction cs arbitrary: g) (auto split: sum.splits dest: length_link_resource)

lemma second_pass_base_fields:
  "second_pass m cs g = Inr g' \<Longrightarrow> base_fields (g' ! j) = base_fields (g ! j)"
  by (induction cs arbitrary: g) (auto split: sum.splits dest: base_fields_link_resource)

lemma second_pass_total:
  "\<forall>it \<in> set cs. m (path it) \<noteq> None \<Longrightarrow> \<exists>g'. second_pass m cs g = Inr g'"
proof (induction cs arbitrary: g)
  case Nil
  show ?case by simp
next
  case (Cons it its)
  from Cons.prems obtain g1 where "link_resource m it (add_part m it g) = Inr g1"
    using link_resource_total [of m it] by auto
  moreover from Cons obtain g' where "second_pass m its g1 = Inr g'" by auto
  ultimately show ?case by simp
qed

text \<open>What the second loop does to the entity at position \<open>j\<close> of the graph: the
  records whose parent path is bound to \<open>j\<close> are appended to its \<^verbatim>\<open>hasPart\<close>, in the
  order of the walk, and the last data file bound to \<open>j\<close> whose resource file is known
  sets its \<^verbatim>\<open>isDescribedBy\<close>.\<close>

definition parts_added :: "(string \<rightharpoonup> nat) \<Rightarrow> item list \<Rightarrow> nat \<Rightarrow> string list" where
  "parts_added m cs j = map path (filter (\<lambda>it. m (parent_path_of it) = Some j) cs)"

definition links_made :: "(string \<rightharpoonup> nat) \<Rightarrow> item list \<Rightarrow> nat \<Rightarrow> item list" where
  "links_made m cs j =
     filter (\<lambda>it. described_kind it \<and> m (resource_file_of it) \<noteq> None \<and> m (path it) = Some j) cs"

lemma second_pass_hasPart:
  "second_pass m cs g = Inr g' \<Longrightarrow> j < length g \<Longrightarrow>
     hasPart (g' ! j) =
       (if parts_added m cs j = [] then hasPart (g ! j)
        else Some ((case hasPart (g ! j) of None \<Rightarrow> [] | Some ps \<Rightarrow> ps) @ parts_added m cs j))"
proof (induction cs arbitrary: g)
  case Nil
  then show ?case by (simp add: parts_added_def)
next
  case (Cons it its)
  from Cons.prems(1) obtain g1 where g1: "link_resource m it (add_part m it g) = Inr g1"
    and rest: "second_pass m its g1 = Inr g'"
    by (auto split: sum.splits)
  have len: "j < length g1" using length_link_resource [OF g1] Cons.prems(2) by simp
  have h1: "hasPart (g1 ! j) =
     (if m (parent_path_of it) = Some j
      then Some ((case hasPart (g ! j) of None \<Rightarrow> [] | Some ps \<Rightarrow> ps) @ [path it])
      else hasPart (g ! j))"
    using hasPart_link_resource [OF g1] hasPart_add_part [OF Cons.prems(2)] by simp
  show ?case
    unfolding Cons.IH [OF rest len] h1
    by (simp add: parts_added_def)
qed

lemma second_pass_isDescribedBy:
  "second_pass m cs g = Inr g' \<Longrightarrow> j < length g \<Longrightarrow>
     isDescribedBy (g' ! j) =
       (if links_made m cs j = [] then isDescribedBy (g ! j)
        else Some (resource_file_of (last (links_made m cs j))))"
proof (induction cs arbitrary: g)
  case Nil
  then show ?case by (simp add: links_made_def)
next
  case (Cons it its)
  from Cons.prems(1) obtain g1 where g1: "link_resource m it (add_part m it g) = Inr g1"
    and rest: "second_pass m its g1 = Inr g'"
    by (auto split: sum.splits)
  have len: "j < length g1" using length_link_resource [OF g1] Cons.prems(2) by simp
  have "j < length (add_part m it g)" using Cons.prems(2) by simp
  from isDescribedBy_link_resource [OF g1 this]
  have h1: "isDescribedBy (g1 ! j) =
       (if described_kind it \<and> m (resource_file_of it) \<noteq> None \<and> m (path it) = Some j
        then Some (resource_file_of it) else isDescribedBy (g ! j))"
    by (simp only: isDescribedBy_add_part)
  show ?case
    unfolding Cons.IH [OF rest len] h1
    by (auto simp: links_made_def)
qed


subsection \<open>The built graph\<close>

lemma entity_eqI:
  fixes e e' :: entity
  shows "base_fields e = base_fields e' \<Longrightarrow> hasPart e = hasPart e' \<Longrightarrow>
     isDescribedBy e = isDescribedBy e' \<Longrightarrow> e = e'"
  by (cases e, cases e') (simp add: base_fields_def)

lemma build_graph_Inr:
  assumes "build_graph env directory cs = Inr g"
  obtains es m where
    "map (make_entity env directory) cs = map Inr es"
    "first_pass env directory cs ([root_dataset env directory], Map.empty)
       = Inr (root_dataset env directory # es, m)"
    "second_pass m cs (root_dataset env directory # es) = Inr g"
proof -
  from assms obtain g1 m where
    fp: "first_pass env directory cs ([root_dataset env directory], Map.empty) = Inr (g1, m)"
    and sp: "second_pass m cs g1 = Inr g"
    by (auto simp: build_graph_def split: sum.splits)
  from first_pass_graph [OF fp] obtain es where
    "g1 = [root_dataset env directory] @ es" "map (make_entity env directory) cs = map Inr es"
    by blast
  with fp sp that show thesis by simp
qed

lemma build_graph_length: "build_graph env directory cs = Inr g \<Longrightarrow> length g = Suc (length cs)"
proof (erule build_graph_Inr)
  fix es m
  assume "map (make_entity env directory) cs = map Inr es"
    and "second_pass m cs (root_dataset env directory # es) = Inr g"
  then show "length g = Suc (length cs)"
    using second_pass_length [of m cs _ g] map_eq_imp_length_eq [of "make_entity env directory" cs Inr es]
    by simp
qed

lemma build_graph_root:
  assumes "build_graph env directory cs = Inr g"
  shows "g ! 0 = root_dataset env directory"
proof -
  from assms obtain es m where
    fp: "first_pass env directory cs ([root_dataset env directory], Map.empty)
       = Inr (root_dataset env directory # es, m)"
    and sp: "second_pass m cs (root_dataset env directory # es) = Inr g"
    by (rule build_graph_Inr)
  have no0: "m p \<noteq> Some 0" for p
    using first_pass_range [OF fp, of p 0] by auto
  have "parts_added m cs 0 = []" "links_made m cs 0 = []"
    using no0 by (auto simp: parts_added_def links_made_def filter_empty_conv)
  then have "hasPart (g ! 0) = hasPart (root_dataset env directory)"
    "isDescribedBy (g ! 0) = isDescribedBy (root_dataset env directory)"
    using second_pass_hasPart [OF sp, of 0] second_pass_isDescribedBy [OF sp, of 0] by simp_all
  moreover have "base_fields (g ! 0) = base_fields (root_dataset env directory)"
    using second_pass_base_fields [OF sp, of 0] by simp
  ultimately show ?thesis by (intro entity_eqI)
qed

lemma build_graph_base:
  assumes "build_graph env directory cs = Inr g" and "i < length cs"
  shows "\<exists>ent. make_entity env directory (cs ! i) = Inr ent
           \<and> base_fields (g ! Suc i) = base_fields ent"
proof -
  from assms(1) obtain es m where
    es: "map (make_entity env directory) cs = map Inr es"
    and sp: "second_pass m cs (root_dataset env directory # es) = Inr g"
    by (rule build_graph_Inr)
  from es have "length es = length cs" by (metis length_map)
  with es assms(2) have "make_entity env directory (cs ! i) = Inr (es ! i)"
    by (metis nth_map)
  moreover have "base_fields (g ! Suc i) = base_fields (es ! i)"
    using second_pass_base_fields [OF sp, of "Suc i"] by simp
  ultimately show ?thesis by blast
qed

lemma distinct_filter_nth:
  "distinct (map f xs) \<Longrightarrow> i < length xs \<Longrightarrow> filter (\<lambda>x. P x \<and> f x = f (xs ! i)) xs = (if P (xs ! i) then [xs ! i] else [])"
proof (induction xs arbitrary: i)
  case Nil
  then show ?case by simp
next
  case (Cons x xs)
  show ?case
  proof (cases i)
    case 0
    from Cons.prems(1) have "f x \<notin> f ` set xs" by simp
    then have "\<forall>y \<in> set xs. f y \<noteq> f x" by (metis imageI)
    then have "filter (\<lambda>y. P y \<and> f y = f x) xs = []"
      by (simp add: filter_empty_conv)
    with 0 show ?thesis by simp
  next
    case (Suc k)
    with Cons.prems have "f x \<noteq> f (xs ! k)" by auto
    with Suc Cons show ?thesis by simp
  qed
qed

lemma build_graph_index:
  assumes fp: "first_pass env directory cs ([r], Map.empty) = Inr (g1, m)"
    and d: "distinct (map path cs)"
  shows "m p = Some j \<longleftrightarrow> (\<exists>i < length cs. p = path (cs ! i) \<and> j = Suc i)"
proof
  assume mp: "m p = Some j"
  with first_pass_dom [OF fp] have "p \<in> path ` set cs" by auto
  then obtain i where i: "i < length cs" "p = path (cs ! i)"
    by (auto simp: in_set_conv_nth)
  have "\<forall>k. i < k \<and> k < length cs \<longrightarrow> path (cs ! k) \<noteq> path (cs ! i)"
    using d i(1) by (auto simp: distinct_conv_nth)
  from first_pass_map_last [OF fp i(1) this] mp i show "\<exists>i < length cs. p = path (cs ! i) \<and> j = Suc i"
    by auto
next
  assume "\<exists>i < length cs. p = path (cs ! i) \<and> j = Suc i"
  then obtain i where i: "i < length cs" "p = path (cs ! i)" "j = Suc i" by blast
  have "\<forall>k. i < k \<and> k < length cs \<longrightarrow> path (cs ! k) \<noteq> path (cs ! i)"
    using d i(1) by (auto simp: distinct_conv_nth)
  from first_pass_map_last [OF fp i(1) this] i show "m p = Some j" by simp
qed

lemma build_graph_hasPart:
  assumes "build_graph env directory cs = Inr g" and d: "distinct (map path cs)" and i: "i < length cs"
  shows "hasPart (g ! Suc i) =
     (if \<forall>it \<in> set cs. parent_path_of it \<noteq> path (cs ! i) then None
      else Some (map path (filter (\<lambda>it. parent_path_of it = path (cs ! i)) cs)))"
proof -
  from assms(1) obtain es m where
    es: "map (make_entity env directory) cs = map Inr es"
    and fp: "first_pass env directory cs ([root_dataset env directory], Map.empty)
       = Inr (root_dataset env directory # es, m)"
    and sp: "second_pass m cs (root_dataset env directory # es) = Inr g"
    by (rule build_graph_Inr)
  from es have len: "length es = length cs" by (metis length_map)
  have ent: "make_entity env directory (cs ! i) = Inr (es ! i)"
    using es i len by (metis nth_map)
  have m: "m p = Some (Suc i) \<longleftrightarrow> p = path (cs ! i)" for p
    using build_graph_index [OF fp d, of p "Suc i"] i d
    by (auto simp: distinct_conv_nth)
  have pa: "parts_added m cs (Suc i) = map path (filter (\<lambda>it. parent_path_of it = path (cs ! i)) cs)"
    by (simp add: parts_added_def m)
  have "hasPart ((root_dataset env directory # es) ! Suc i) = None"
    using make_entity_fields(5) [OF ent] by simp
  with second_pass_hasPart [OF sp, of "Suc i"] i len pa
  show ?thesis by (auto simp: filter_empty_conv)
qed

lemma build_graph_isDescribedBy:
  assumes "build_graph env directory cs = Inr g" and d: "distinct (map path cs)" and i: "i < length cs"
  shows "isDescribedBy (g ! Suc i) =
     (if described_kind (cs ! i) \<and> resource_file_of (cs ! i) \<in> path ` set cs
      then Some (resource_file_of (cs ! i)) else None)"
proof -
  from assms(1) obtain es m where
    es: "map (make_entity env directory) cs = map Inr es"
    and fp: "first_pass env directory cs ([root_dataset env directory], Map.empty)
       = Inr (root_dataset env directory # es, m)"
    and sp: "second_pass m cs (root_dataset env directory # es) = Inr g"
    by (rule build_graph_Inr)
  from es have len: "length es = length cs" by (metis length_map)
  have ent: "make_entity env directory (cs ! i) = Inr (es ! i)"
    using es i len by (metis nth_map)
  have m: "m p = Some (Suc i) \<longleftrightarrow> p = path (cs ! i)" for p
    using build_graph_index [OF fp d, of p "Suc i"] i d
    by (auto simp: distinct_conv_nth)
  have dm: "m p \<noteq> None \<longleftrightarrow> p \<in> path ` set cs" for p
    using first_pass_dom [OF fp] by (auto simp: dom_def)
  have "links_made m cs (Suc i) =
     filter (\<lambda>it. (described_kind it \<and> resource_file_of it \<in> path ` set cs) \<and> path it = path (cs ! i)) cs"
    unfolding links_made_def m dm by (simp add: conj_assoc)
  also have "\<dots> = (if described_kind (cs ! i) \<and> resource_file_of (cs ! i) \<in> path ` set cs
      then [cs ! i] else [])"
    by (rule distinct_filter_nth [OF d i])
  finally have lm: "links_made m cs (Suc i) =
     (if described_kind (cs ! i) \<and> resource_file_of (cs ! i) \<in> path ` set cs then [cs ! i] else [])" .
  have "isDescribedBy ((root_dataset env directory # es) ! Suc i) = None"
    using make_entity_fields(6) [OF ent] by simp
  with second_pass_isDescribedBy [OF sp, of "Suc i"] i len lm
  show ?thesis by auto
qed

lemma first_pass_total:
  "\<forall>it \<in> set cs. \<exists>ent. make_entity env directory it = Inr ent \<Longrightarrow>
     \<exists>g' m'. first_pass env directory cs (g, m) = Inr (g', m')"
proof (induction cs arbitrary: g m)
  case Nil
  show ?case by simp
next
  case (Cons it its)
  from Cons.prems obtain ent where "make_entity env directory it = Inr ent" by auto
  moreover from Cons obtain g' m' where
    "first_pass env directory its (g @ [ent], m(path it \<mapsto> length g)) = Inr (g', m')"
    by (metis list.set_intros(2))
  ultimately show ?case by simp
qed

lemma first_pass_error:
  "i < length cs \<Longrightarrow> make_entity env directory (cs ! i) = Inl e \<Longrightarrow>
   \<forall>k < i. \<exists>ent. make_entity env directory (cs ! k) = Inr ent \<Longrightarrow>
   first_pass env directory cs (g, m) = Inl e"
proof (induction cs arbitrary: g m i)
  case Nil
  then show ?case by simp
next
  case (Cons it its)
  show ?case
  proof (cases i)
    case 0
    with Cons.prems show ?thesis by simp
  next
    case (Suc j)
    from Cons.prems(3) Suc obtain ent where ent: "make_entity env directory it = Inr ent"
      by (metis nth_Cons_0 zero_less_Suc)
    have "first_pass env directory its (g @ [ent], m(path it \<mapsto> length g)) = Inl e"
    proof (rule Cons.IH [of j])
      show "j < length its" using Cons.prems(1) Suc by simp
      show "make_entity env directory (its ! j) = Inl e" using Cons.prems(2) Suc by simp
      show "\<forall>k<j. \<exists>ent. make_entity env directory (its ! k) = Inr ent"
        using Cons.prems(3) Suc by (metis Suc_less_eq nth_Cons_Suc)
    qed
    with ent show ?thesis by simp
  qed
qed

lemma build_graph_total:
  assumes "\<forall>it \<in> set cs. \<exists>ent. make_entity env directory it = Inr ent"
  shows "\<exists>g. build_graph env directory cs = Inr g"
proof -
  from first_pass_total [OF assms] obtain g1 m where
    fp: "first_pass env directory cs ([root_dataset env directory], Map.empty) = Inr (g1, m)"
    by blast
  from first_pass_dom [OF fp] have "\<forall>it \<in> set cs. m (path it) \<noteq> None"
    by (auto simp: dom_def)
  from second_pass_total [OF this] obtain g where "second_pass m cs g1 = Inr g" by blast
  with fp show ?thesis by (auto simp: build_graph_def)
qed

lemma build_graph_error:
  assumes "i < length cs" and "make_entity env directory (cs ! i) = Inl e"
    and "\<forall>k < i. \<exists>ent. make_entity env directory (cs ! k) = Inr ent"
  shows "build_graph env directory cs = Inl e"
  using first_pass_error [OF assms] by (simp add: build_graph_def)


subsection \<open>The graph of a walk\<close>

lemma contents_cases:
  obtains (nodir) "list_directory_contents t directory om = []"
  | (dir) n ch where "lookup directory t = Some (Dir n ch)"
      "list_directory_contents t directory om = walk_items (omit_list om) [] ch"
proof (cases "lookup directory t")
  case None
  then show ?thesis using nodir by (simp add: list_directory_contents_def)
next
  case (Some nd)
  show ?thesis
  proof (cases nd)
    case (File n c)
    with Some show ?thesis using nodir by (simp add: list_directory_contents_def)
  next
    case (Dir n ch)
    with Some show ?thesis using dir [of n ch] by (simp add: list_directory_contents_def)
  qed
qed

lemma wf_fs_lookup:
  assumes "wf_fs t" and "lookup directory t = Some (Dir n ch)"
  shows "wf_children ch"
proof (cases t)
  case (File n0 c0)
  with assms(2) show ?thesis by (cases directory) auto
next
  case (Dir n0 ch0)
  with assms have "wf_children ch0" "lookup directory (Dir n0 ch0) = Some (Dir n ch)"
    by (simp_all add: wf_fs_def)
  from lookup_wf_children [OF this] show ?thesis by simp
qed

lemma contents_distinct:
  assumes "wf_fs t"
  shows "distinct (map path (list_directory_contents t directory om))"
proof (cases rule: contents_cases [of t directory om])
  case nodir
  then show ?thesis by simp
next
  case (dir n ch)
  from walk_paths_distinct [OF wf_fs_lookup [OF assms dir(1)]] dir(2) show ?thesis by simp
qed

lemma build_graph_ids:
  assumes "build_graph env directory cs = Inr g"
  shows "map at_id g = ''./'' # map path cs"
proof (rule nth_equalityI)
  show "length (map at_id g) = length (''./'' # map path cs)"
    using build_graph_length [OF assms] by simp
next
  fix j assume "j < length (map at_id g)"
  then have j: "j < Suc (length cs)" using build_graph_length [OF assms] by simp
  show "map at_id g ! j = (''./'' # map path cs) ! j"
  proof (cases j)
    case 0
    with build_graph_root [OF assms] j build_graph_length [OF assms] show ?thesis
      by (simp add: root_dataset_def)
  next
    case (Suc i)
    with j have i: "i < length cs" by simp
    from build_graph_base [OF assms i] obtain ent where
      "make_entity env directory (cs ! i) = Inr ent" "base_fields (g ! Suc i) = base_fields ent"
      by blast
    with make_entity_fields(1) [of env directory "cs ! i" ent] have "at_id (g ! Suc i) = path (cs ! i)"
      by (simp add: base_fields_def)
    with Suc i build_graph_length [OF assms] show ?thesis by simp
  qed
qed


lemma should_omit_iff:
  "should_omit ns c \<longleftrightarrow> c \<in> set ns \<or> endswith c ''.git'' \<or> endswith c ''.ipynb_checkpoints''"
  by (auto simp: should_omit_def)

lemma walk_paths:
  assumes wf: "wf_children ch"
  shows "path ` set (walk_items ns [] ch) =
     {join_path cs | cs. cs \<noteq> [] \<and> lookup cs (Dir n ch) \<noteq> None
        \<and> (\<forall>c \<in> set cs. \<not> should_omit ns c)}"
proof (intro set_eqI iffI)
  fix p assume "p \<in> path ` set (walk_items ns [] ch)"
  then obtain it where it: "it \<in> set (walk_items ns [] ch)" "p = path it" by auto
  from walk_shape [OF wf it(1), of n] obtain cs nd where
    c: "cs \<noteq> []" "lookup cs (Dir n ch) = Some nd" "\<forall>c \<in> set cs. \<not> should_omit ns c"
      "it = entry_record cs nd"
    by metis
  with it(2) have "p = join_path cs" by (simp add: relpath_def)
  with c show "p \<in> {join_path cs | cs. cs \<noteq> [] \<and> lookup cs (Dir n ch) \<noteq> None
        \<and> (\<forall>c \<in> set cs. \<not> should_omit ns c)}"
    by auto
next
  fix p assume "p \<in> {join_path cs | cs. cs \<noteq> [] \<and> lookup cs (Dir n ch) \<noteq> None
        \<and> (\<forall>c \<in> set cs. \<not> should_omit ns c)}"
  then obtain cs nd where c: "p = join_path cs" "cs \<noteq> []" "lookup cs (Dir n ch) = Some nd"
    "\<forall>c \<in> set cs. \<not> should_omit ns c"
    by auto
  from walk_complete [OF c(2,3,4), of "[]"] have "entry_record cs nd \<in> set (walk_items ns [] ch)"
    by simp
  then have "path (entry_record cs nd) \<in> path ` set (walk_items ns [] ch)"
    by (rule imageI)
  with c(1,2) show "p \<in> path ` set (walk_items ns [] ch)" by (simp add: relpath_def)
qed

lemma graph_hasPart_walk:
  assumes wf: "wf_fs (fs env)" and dir: "lookup directory (fs env) = Some (Dir n ch)"
    and g: "create_metadata env directory omit_names = Inr graph"
    and cs: "contents = list_directory_contents (fs env) directory omit_names"
    and i: "i < length contents" and p: "path (contents ! i) = relpath comps"
    and lk: "lookup comps (Dir n ch) = Some nd" and ne: "comps \<noteq> []"
    and kept: "\<forall>c \<in> set comps. \<not> should_omit (omit_list omit_names) c"
  shows "hasPart (graph ! Suc i) =
     (if dir_records (omit_list omit_names) comps (children_of nd) = [] then None
      else Some (map path (dir_records (omit_list omit_names) comps (children_of nd))))"
proof -
  have w: "contents = walk_items (omit_list omit_names) [] ch"
    using cs dir by (simp add: list_directory_contents_def)
  have wfc: "wf_children ch" by (rule wf_fs_lookup [OF wf dir])
  have b: "build_graph env directory contents = Inr graph"
    using g cs by (simp add: create_metadata_def)
  have d: "distinct (map path contents)"
    unfolding cs by (rule contents_distinct [OF wf])
  have "filter (\<lambda>it. parent_path_of it = relpath comps) contents
      = dir_records (omit_list omit_names) comps (children_of nd)"
    using walk_parent_filter [OF wfc lk ne kept] by (simp only: w)
  then have f: "filter (\<lambda>it. parent_path_of it = path (contents ! i)) contents
      = dir_records (omit_list omit_names) comps (children_of nd)"
    by (simp only: p)
  have e: "(\<forall>it \<in> set contents. parent_path_of it \<noteq> path (contents ! i))
      \<longleftrightarrow> dir_records (omit_list omit_names) comps (children_of nd) = []"
    unfolding f [symmetric] filter_empty_conv ..
  show ?thesis
    unfolding build_graph_hasPart [OF b d i] e f ..
qed

lemma walk_entry_index:
  assumes dir: "lookup directory t = Some (Dir n ch)"
    and cs: "contents = list_directory_contents t directory omit_names"
    and lk: "lookup comps (Dir n ch) = Some nd" and ne: "comps \<noteq> []"
    and kept: "\<forall>c \<in> set comps. \<not> should_omit (omit_list omit_names) c"
  shows "\<exists>i < length contents. contents ! i = entry_record comps nd"
proof -
  have w: "contents = walk_items (omit_list omit_names) [] ch"
    using cs dir by (simp add: list_directory_contents_def)
  from walk_complete [OF ne lk kept, of "[]"] w have "entry_record comps nd \<in> set contents"
    by simp
  then show ?thesis by (auto simp: in_set_conv_nth)
qed


lemma dir_records_all_omitted:
  "\<forall>k \<in> set ch. should_omit ns (node_name k) \<Longrightarrow> dir_records ns rt ch = []"
  by (auto simp: dir_records_def kept_files_def kept_dirs_def filter_empty_conv)

lemma graph_types:
  assumes "build_graph env directory cs = Inr g" and "i < length cs"
  shows "at_type (g ! Suc i) = itype (cs ! i)"
proof -
  from build_graph_base [OF assms] obtain ent where
    "make_entity env directory (cs ! i) = Inr ent" "base_fields (g ! Suc i) = base_fields ent"
    by blast
  with make_entity_fields(2) [of env directory "cs ! i" ent] show ?thesis
    by (simp add: base_fields_def)
qed

text \<open>
  A descriptor whose description is a list that contains itself, and the same tree with
  a plain description and no manifest yet.
\<close>

definition anchor_load :: "string \<Rightarrow> error + pyval" where
  "anchor_load text =
     (if text = ''description: &a [*a]''
        then Inr (PDict [(PStr ''description'', PList [PCycle])])
      else example_load text)"

definition anchored_tree :: node where
  "anchored_tree =
     Dir [] [Dir ''data''
       [File ''a.csv'' ''1,2'',
        File ''a.resource.yaml'' ''description: &a [*a]'',
        File ''ro-crate-metadata.json'' ''previous manifest'']]"

definition anchored_env :: os_env where
  "anchored_env = (example_env anchored_tree)\<lparr>safe_load := anchor_load\<rparr>"


section \<open>Writing a file and reading it back\<close>






lemma is_dir_write_file: "write_file p c t = Some t' \<Longrightarrow> is_dir t'"
  by (cases p) (auto split: if_splits option.splits)


text \<open>The root dataset is never reached through \<^verbatim>\<open>path_to_entity\<close>: whatever the walk
  lists, its \<^verbatim>\<open>hasPart\<close> is the empty list it was created with.\<close>

lemma root_hasPart_always_empty:
  "create_metadata env directory omit_names = Inr graph \<Longrightarrow> hasPart (graph ! 0) = Some []"
  using build_graph_root [of env directory _ graph]
  by (simp add: create_metadata_def root_dataset_def)

section \<open>What the encoder writes\<close>

text \<open>
  Three facts about \<open>iterencode\<close>: the text of a value written below the top level never
  ends like the finished document, whether the encoder came to the end of the value or
  not; the encoder stops only with \<^verbatim>\<open>TypeError\<close> or \<^verbatim>\<open>ValueError\<close>; and it comes to the
  end of exactly the \<open>dumpable\<close> values.
\<close>

subsection \<open>How a text ends\<close>










subsection \<open>The chunks of a scalar\<close>







lemma length_show_nat: "0 < k \<Longrightarrow> length (show_nat n) \<le> k \<longleftrightarrow> n < 10 ^ k"
proof (induction n arbitrary: k rule: show_nat.induct)
  case (1 n)
  show ?case
  proof (cases "n < 10")
    case True
    have "(10::nat) ^ 1 \<le> 10 ^ k" using 1(2) by (intro power_increasing) simp_all
    with True have "n < 10 ^ k" by simp
    moreover have "length (show_nat n) = 1" using True by (subst show_nat.simps) simp
    ultimately show ?thesis using 1(2) by simp
  next
    case False
    have l: "length (show_nat n) = Suc (length (show_nat (n div 10)))"
      using False by (subst show_nat.simps) simp
    show ?thesis
    proof (cases k)
      case 0
      with 1(2) show ?thesis by simp
    next
      case (Suc j)
      show ?thesis
      proof (cases "j = 0")
        case True
        have "0 < length (show_nat (n div 10))" by (subst show_nat.simps) simp
        with l Suc True False show ?thesis by simp
      next
        case j: False
        then have "length (show_nat (n div 10)) \<le> j \<longleftrightarrow> n div 10 < 10 ^ j"
          using 1(1) [OF False, of j] by simp
        moreover have "n div 10 < 10 ^ j \<longleftrightarrow> n < 10 ^ j * 10"
          by (simp add: div_less_iff_less_mult)
        ultimately show ?thesis using l Suc by (simp add: mult.commute)
      qed
    qed
  qed
qed

lemma max_str_digits_pos: "0 < max_str_digits"
  by (simp add: max_str_digits_def)

lemma nat_abs_less_power: "nat \<bar>i\<bar> < 10 ^ k \<longleftrightarrow> \<bar>i\<bar> < 10 ^ k"
proof -
  have "int (nat \<bar>i\<bar>) < int (10 ^ k) \<longleftrightarrow> \<bar>i\<bar> < 10 ^ k" by simp
  then show ?thesis by (simp only: of_nat_less_iff)
qed

lemma intstr_fits: "\<bar>i\<bar> < 10 ^ max_str_digits \<Longrightarrow> intstr i = Inr (show_int i)"
proof -
  assume a: "\<bar>i\<bar> < 10 ^ max_str_digits"
  have "nat \<bar>i\<bar> < 10 ^ max_str_digits"
    using a unfolding nat_abs_less_power .
  then have "length (show_nat (nat \<bar>i\<bar>)) \<le> max_str_digits"
    using length_show_nat [OF max_str_digits_pos, of "nat \<bar>i\<bar>"] by blast
  then show ?thesis by (simp add: intstr_def not_le)
qed

lemma intstr_too_long: "\<not> \<bar>i\<bar> < 10 ^ max_str_digits \<Longrightarrow> intstr i = Inl ValueError"
proof -
  assume a: "\<not> \<bar>i\<bar> < 10 ^ max_str_digits"
  have "\<not> nat \<bar>i\<bar> < 10 ^ max_str_digits"
    using a unfolding nat_abs_less_power .
  then have "\<not> length (show_nat (nat \<bar>i\<bar>)) \<le> max_str_digits"
    using length_show_nat [OF max_str_digits_pos, of "nat \<bar>i\<bar>"] by blast
  then show ?thesis by (simp add: intstr_def not_le)
qed

lemma intstr_cases:
  "intstr i = (if \<bar>i\<bar> < 10 ^ max_str_digits then Inr (show_int i) else Inl ValueError)"
  using intstr_fits [of i] intstr_too_long [of i] by simp


lemma key_string_dumpable: "dumpable_key k \<Longrightarrow> \<exists>key. key_string k = Inr key"
  by (cases k) (simp_all add: intstr_fits)

lemma key_string_not_dumpable:
  "\<not> dumpable_key k \<Longrightarrow> key_string k = Inl TypeError \<or> key_string k = Inl ValueError"
  by (cases k) (simp_all add: intstr_too_long)

subsection \<open>The text of a value below the top\<close>


subsection \<open>When the encoder stops, and with what\<close>




subsection \<open>The document\<close>






section \<open>What the description of a descriptor is\<close>

lemma get_description_missing:
  "\<not> path_exists env p \<Longrightarrow> get_description_from_resource_file env p = Inr (PStr [])"
  by (simp add: get_description_from_resource_file_def)

lemma get_description_loader_error:
  "path_exists env p \<Longrightarrow> read_file (fs env) (resolve (cwd env) p) = Inr text \<Longrightarrow>
   safe_load env text = Inl e \<Longrightarrow> get_description_from_resource_file env p = Inl e"
  by (simp add: get_description_from_resource_file_def)

lemma get_description_mapping:
  "path_exists env p \<Longrightarrow> read_file (fs env) (resolve (cwd env) p) = Inr text \<Longrightarrow>
   safe_load env text = Inr (PDict kvs) \<Longrightarrow>
   get_description_from_resource_file env p =
     Inr (case map_of kvs (PStr ''description'') of None \<Rightarrow> PStr [] | Some d \<Rightarrow> d)"
  by (simp add: get_description_from_resource_file_def py_get_def)

lemma get_description_no_mapping:
  "path_exists env p \<Longrightarrow> read_file (fs env) (resolve (cwd env) p) = Inr text \<Longrightarrow>
   safe_load env text = Inr v \<Longrightarrow> \<forall>kvs. v \<noteq> PDict kvs \<Longrightarrow>
   get_description_from_resource_file env p = Inl AttributeError"
  by (cases v) (simp_all add: get_description_from_resource_file_def py_get_def)

section \<open>Example runs\<close>

lemma scenario_build:
  "create_metadata (example_env scenario_tree) [''data''] None = Inr scenario_graph"
  by code_simp

lemma scenario_contents:
  "list_directory_contents scenario_tree [''data''] None =
     [\<lparr>itype = ''File'', path = ''a.csv'', root = []\<rparr>,
      \<lparr>itype = ''File'', path = ''a.resource.yaml'', root = []\<rparr>,
      \<lparr>itype = ''Directory'', path = ''b'', root = []\<rparr>,
      \<lparr>itype = ''File'', path = ''b/x.txt'', root = [''b'']\<rparr>]"
  by code_simp

lemma scenario_wf: "wf_fs scenario_tree"
  by code_simp

text \<open>What \<^verbatim>\<open>json.dump\<close> writes for the floats that are no numbers of JSON, and for a
  dict with such a key.\<close>

lemma nonfinite_floats_written:
  "iterencode 0 (PList [PFloat FInf, PFloat FNegInf, PFloat FNaN,
       PFloat (Finite [F1, FExp, FPlus, F1, F6])])
     = (''['' @ newline_indent 1 @ ''Infinity,'' @ newline_indent 1 @ ''-Infinity,''
          @ newline_indent 1 @ ''NaN,'' @ newline_indent 1 @ ''1e+16''
          @ newline_indent 0 @ '']'', None)"
  by code_simp

lemma nonfinite_key_written:
  "iterencode 0 (PDict [(PFloat FNaN, PInt (- 12)), (PBool True, PNone),
       (PObject ''date'', PInt 1)])
     = (''{'' @ newline_indent 1 @ [CHR 0x22] @ ''NaN'' @ [CHR 0x22] @ '': -12,''
          @ newline_indent 1 @ [CHR 0x22] @ ''true'' @ [CHR 0x22] @ '': null'',
        Some TypeError)"
  by code_simp

text \<open>An integer of 4301 digits stops the encoder, one of 4300 does not.\<close>

lemma long_integer_stops_dump:
  "iterencode level (PInt (10 ^ max_str_digits)) = ([], Some ValueError)"
  "iterencode level (PInt (10 ^ max_str_digits - 1))
     = (show_int (10 ^ max_str_digits - 1), None)"
  by (simp_all add: intstr_cases)

text \<open>
  A description that contains itself: the function ends with \<^verbatim>\<open>ValueError\<close>, and the
  previous manifest has been replaced by the first 320 characters of the new document,
  which end where the list opens.
\<close>

lemma circular_description_stops_dump:
  "fst (create_and_write_ro_crate_metadata anchored_env [''data'']
          (Some [''ro-crate-metadata.json''])) = Some ValueError
   \<and> length (projr (read_file (snd (create_and_write_ro_crate_metadata anchored_env [''data'']
          (Some [''ro-crate-metadata.json''])))
        [''data'', ''ro-crate-metadata.json''])) = 320
   \<and> endswith (projr (read_file (snd (create_and_write_ro_crate_metadata anchored_env [''data'']
          (Some [''ro-crate-metadata.json''])))
        [''data'', ''ro-crate-metadata.json'']))
        (''description'' @ [CHR 0x22] @ '': ['' @ newline_indent 4)"
  by code_simp

section \<open>The claims\<close>

text \<open>
  C1 (root containment). The claim: every non-root entity is listed in the
  \<^verbatim>\<open>hasPart\<close> of exactly one parent, and the entries that lie directly in the walked
  directory are listed in the \<^verbatim>\<open>hasPart\<close> of the root dataset. The code builds the root
  with \<^verbatim>\<open>"hasPart": []\<close> and maps the parent path \<^verbatim>\<open>"."\<close> to the root's id \<^verbatim>\<open>"./"\<close>, but
  never stores the root in \<^verbatim>\<open>path_to_entity\<close>, so the lookup of \<^verbatim>\<open>"./"\<close> finds nothing:
  for a directory that holds the one file \<^verbatim>\<open>a.csv\<close> the root's \<^verbatim>\<open>hasPart\<close> is still
  empty in the finished graph and \<^verbatim>\<open>a.csv\<close> has no parent.
\<close>

theorem root_hasPart_stays_empty:
  "create_metadata (example_env single_file_tree) [''data''] None =
     Inr [\<lparr>at_id = ''./'', at_type = ''Dataset'', name = ''data'',
            dateCreated = Some ''2024-06-14T12:00:00'', description = None,
            contentChecksum = None, hasPart = Some [], isDescribedBy = None\<rparr>,
          \<lparr>at_id = ''a.csv'', at_type = ''File'', name = ''a.csv'',
            dateCreated = None, description = None,
            contentChecksum = Some [(''MD5'', ''md5 of 1,2'')], hasPart = None,
            isDescribedBy = None\<rparr>]"
  by code_simp

text \<open>
  C2 (checksums), as stated: every File entity, descriptor files included, carries a
  checksum. Counterexample: the walked directory holds only \<^verbatim>\<open>a.resource.yaml\<close>; its
  File entity has no \<^verbatim>\<open>contentChecksum\<close>.
\<close>

theorem descriptor_file_has_no_checksum:
  "create_metadata (example_env descriptor_only_tree) [''data''] None =
     Inr [\<lparr>at_id = ''./'', at_type = ''Dataset'', name = ''data'',
            dateCreated = Some ''2024-06-14T12:00:00'', description = None,
            contentChecksum = None, hasPart = Some [], isDescribedBy = None\<rparr>,
          \<lparr>at_id = ''a.resource.yaml'', at_type = ''File'', name = ''a.resource.yaml'',
            dateCreated = None, description = None,
            contentChecksum = None, hasPart = None, isDescribedBy = None\<rparr>]"
  by code_simp

text \<open>
  C2, amended: in a built manifest the entity of the \<open>i\<close>-th record of the walk carries a
  \<^verbatim>\<open>contentChecksum\<close> iff the record is a File whose path does not end in
  \<^verbatim>\<open>.resource.yaml\<close>; the checksum is then the one pair of the algorithm \<^verbatim>\<open>MD5\<close> and
  the digest of the file at that path below the walked directory. Directories,
  descriptor files and the root carry none.
\<close>

theorem checksum_iff_data_file:
  assumes "create_metadata env directory omit_names = Inr graph"
    and "contents = list_directory_contents (fs env) directory omit_names"
    and "i < length contents"
  shows "at_id (graph ! Suc i) = path (contents ! i)
       \<and> at_type (graph ! Suc i) = itype (contents ! i)
       \<and> (contentChecksum (graph ! Suc i) \<noteq> None \<longleftrightarrow>
            itype (contents ! i) = ''File'' \<and> \<not> endswith (path (contents ! i)) ''.resource.yaml'')
       \<and> (\<forall>v. contentChecksum (graph ! Suc i) = Some v \<longrightarrow>
            (\<exists>h. morpc_md5 env (resolve directory (path (contents ! i))) = Inr h
                 \<and> v = [(''MD5'', h)]))
       \<and> contentChecksum (graph ! 0) = None"
proof -
  from assms(1,2) have b: "build_graph env directory contents = Inr graph"
    by (simp add: create_metadata_def)
  from build_graph_base [OF b assms(3)] obtain ent where
    ent: "make_entity env directory (contents ! i) = Inr ent"
    and bf: "base_fields (graph ! Suc i) = base_fields ent"
    by blast
  from bf have same: "at_id (graph ! Suc i) = at_id ent" "at_type (graph ! Suc i) = at_type ent"
    "contentChecksum (graph ! Suc i) = contentChecksum ent"
    by (simp_all add: base_fields_def)
  have md5: "\<exists>h. morpc_md5 env (resolve directory (path (contents ! i))) = Inr h
       \<and> contentChecksum ent = Some [(''MD5'', h)]" if "described_kind (contents ! i)"
    using ent that by (auto simp: make_entity_def Let_def split: if_splits sum.splits)
  have none: "contentChecksum ent = None" if "\<not> described_kind (contents ! i)"
    using ent that by (auto simp: make_entity_def Let_def split: if_splits sum.splits)
  have "contentChecksum (graph ! 0) = None"
    using build_graph_root [OF b] by (simp add: root_dataset_def)
  with same make_entity_fields(1,2) [OF ent] md5 none show ?thesis
    by (cases "described_kind (contents ! i)") (auto simp: described_kind_def)
qed

text \<open>C2, witness: the descriptor file of the scenario tree, the second record of its
  walk.\<close>

theorem checksum_iff_data_file_witness:
  "create_metadata (example_env scenario_tree) [''data''] None = Inr scenario_graph
   \<and> 1 < length (list_directory_contents scenario_tree [''data''] None)
   \<and> at_id (scenario_graph ! Suc 1) = ''a.resource.yaml''
   \<and> at_type (scenario_graph ! Suc 1) = ''File''
   \<and> contentChecksum (scenario_graph ! Suc 1) = None
   \<and> endswith ''a.resource.yaml'' ''.resource.yaml''
   \<and> contentChecksum (scenario_graph ! 0) = None"
proof -
  have h1: "create_metadata (example_env scenario_tree) [''data''] None = Inr scenario_graph"
    by (rule scenario_build)
  have h2: "list_directory_contents scenario_tree [''data''] None
      = list_directory_contents (fs (example_env scenario_tree)) [''data''] None"
    by (simp add: example_env_def)
  have h3: "1 < length (list_directory_contents scenario_tree [''data''] None)"
    by (simp add: scenario_contents)
  have h4: "endswith ''a.resource.yaml'' ''.resource.yaml''"
    by (simp add: endswith_def)
  from checksum_iff_data_file [OF h1 h2 h3] h1 h3 h4 show ?thesis
    by (simp add: scenario_contents)
qed

text \<open>
  C3 (description lookup), as stated: the description is attached iff the candidate
  descriptor is among the entries the walk produced. Counterexample: with
  \<^verbatim>\<open>omit_names = ["a.resource.yaml"]\<close> the walk lists only \<^verbatim>\<open>a.csv\<close>, yet the entity
  of \<^verbatim>\<open>a.csv\<close> has the description of the descriptor, which \<^verbatim>\<open>os.path.exists\<close> finds on
  disk.
\<close>

theorem omitted_descriptor_still_describes:
  "list_directory_contents described_pair_tree [''data''] (Some [''a.resource.yaml''])
     = [\<lparr>itype = ''File'', path = ''a.csv'', root = []\<rparr>]
   \<and> create_metadata (example_env described_pair_tree) [''data''] (Some [''a.resource.yaml''])
     = Inr [\<lparr>at_id = ''./'', at_type = ''Dataset'', name = ''data'',
            dateCreated = Some ''2024-06-14T12:00:00'', description = None,
            contentChecksum = None, hasPart = Some [], isDescribedBy = None\<rparr>,
          \<lparr>at_id = ''a.csv'', at_type = ''File'', name = ''a.csv'',
            dateCreated = None, description = Some (PStr ''Attribute table''),
            contentChecksum = Some [(''MD5'', ''md5 of 1,2'')], hasPart = None,
            isDescribedBy = None\<rparr>]"
  by code_simp

text \<open>
  C3, amended: when the working directory is the walked directory (as in the notebook's
  call), the entity of the \<open>i\<close>-th record of a built manifest has a description iff the
  record is a File whose path does not end in \<^verbatim>\<open>.resource.yaml\<close> and the candidate
  descriptor path (the path without its extension, plus \<^verbatim>\<open>.resource.yaml\<close>) exists on
  disk below the walked directory, whether or not the walk listed it; the description
  is then what \<^verbatim>\<open>get_description_from_resource_file\<close> returned for that path.
\<close>

theorem description_iff_descriptor_on_disk:
  assumes "create_metadata env directory omit_names = Inr graph"
    and "cwd env = directory"
    and "contents = list_directory_contents (fs env) directory omit_names"
    and "i < length contents"
  shows "(description (graph ! Suc i) \<noteq> None \<longleftrightarrow>
            itype (contents ! i) = ''File''
            \<and> \<not> endswith (path (contents ! i)) ''.resource.yaml''
            \<and> lookup (resolve directory (splitext_root (path (contents ! i)) @ ''.resource.yaml''))
                 (fs env) \<noteq> None)
       \<and> (\<forall>d. description (graph ! Suc i) = Some d \<longrightarrow>
            get_description_from_resource_file env
              (splitext_root (path (contents ! i)) @ ''.resource.yaml'') = Inr d)"
proof -
  from assms(1,3) have b: "build_graph env directory contents = Inr graph"
    by (simp add: create_metadata_def)
  from build_graph_base [OF b assms(4)] obtain ent where
    ent: "make_entity env directory (contents ! i) = Inr ent"
    and bf: "base_fields (graph ! Suc i) = base_fields ent"
    by blast
  from bf have same: "description (graph ! Suc i) = description ent"
    by (simp add: base_fields_def)
  have 1: "description ent \<noteq> None \<longleftrightarrow>
      described_kind (contents ! i) \<and> path_exists env (resource_file_of (contents ! i))"
    by (rule make_entity_description [OF ent])
  have 2: "get_description_from_resource_file env (resource_file_of (contents ! i)) = Inr d"
    if "description ent = Some d" for d
    using ent that by (auto simp: make_entity_def Let_def split: if_splits sum.splits)
  from 1 2 same assms(2) show ?thesis
    by (auto simp: described_kind_def resource_file_of_def path_exists_def)
qed

text \<open>C3, witness: the data file whose descriptor the walk omits.\<close>

theorem description_iff_descriptor_on_disk_witness:
  "\<exists>graph.
     create_metadata (example_env described_pair_tree) [''data''] (Some [''a.resource.yaml''])
       = Inr graph
     \<and> cwd (example_env described_pair_tree) = [''data'']
     \<and> ''a.resource.yaml'' \<in> set (omit_list (Some [''a.resource.yaml'']))
     \<and> description (graph ! Suc 0) \<noteq> None
     \<and> lookup (resolve [''data''] (splitext_root ''a.csv'' @ ''.resource.yaml''))
          described_pair_tree \<noteq> None"
proof -
  let ?env = "example_env described_pair_tree"
  let ?graph = "[\<lparr>at_id = ''./'', at_type = ''Dataset'', name = ''data'',
            dateCreated = Some ''2024-06-14T12:00:00'', description = None,
            contentChecksum = None, hasPart = Some [], isDescribedBy = None\<rparr>,
          \<lparr>at_id = ''a.csv'', at_type = ''File'', name = ''a.csv'',
            dateCreated = None, description = Some (PStr ''Attribute table''),
            contentChecksum = Some [(''MD5'', ''md5 of 1,2'')], hasPart = None,
            isDescribedBy = None\<rparr>]"
  have h1: "create_metadata ?env [''data''] (Some [''a.resource.yaml'']) = Inr ?graph"
    by code_simp
  have h2: "cwd ?env = [''data'']"
    by (simp add: example_env_def)
  have h3: "list_directory_contents (fs ?env) [''data''] (Some [''a.resource.yaml''])
      = [\<lparr>itype = ''File'', path = ''a.csv'', root = []\<rparr>]"
    by code_simp
  have h4: "0 < length (list_directory_contents (fs ?env) [''data''] (Some [''a.resource.yaml'']))"
    by (simp add: h3)
  have h5: "lookup (resolve [''data''] (splitext_root ''a.csv'' @ ''.resource.yaml''))
      described_pair_tree \<noteq> None"
    by code_simp
  from description_iff_descriptor_on_disk [OF h1 h2 refl h4] h1 h2 h5
  show ?thesis by (simp add: omit_list_def)
qed




text \<open>
  C5 (described-by links): in a built manifest of a well-formed tree, the entity of a
  File record whose path does not end in \<^verbatim>\<open>.resource.yaml\<close> has \<^verbatim>\<open>isDescribedBy\<close> set,
  and set to the path without its extension plus \<^verbatim>\<open>.resource.yaml\<close>, iff a record of
  exactly that path is in the same walk; the entity of a File whose path ends in
  \<^verbatim>\<open>.resource.yaml\<close> (and that of a Directory) never has it.
\<close>

theorem described_by_iff_descriptor_walked:
  assumes "wf_fs (fs env)"
    and "create_metadata env directory omit_names = Inr graph"
    and "contents = list_directory_contents (fs env) directory omit_names"
    and "i < length contents"
  shows "isDescribedBy (graph ! Suc i) =
     (if itype (contents ! i) = ''File''
         \<and> \<not> endswith (path (contents ! i)) ''.resource.yaml''
         \<and> splitext_root (path (contents ! i)) @ ''.resource.yaml'' \<in> path ` set contents
      then Some (splitext_root (path (contents ! i)) @ ''.resource.yaml'')
      else None)"
proof -
  from assms(2,3) have b: "build_graph env directory contents = Inr graph"
    by (simp add: create_metadata_def)
  have d: "distinct (map path contents)"
    unfolding assms(3) by (rule contents_distinct [OF assms(1)])
  from build_graph_isDescribedBy [OF b d assms(4)] show ?thesis
    by (simp add: described_kind_def resource_file_of_def)
qed

text \<open>C5, witness: the scenario tree; \<^verbatim>\<open>a.csv\<close> is linked to \<^verbatim>\<open>a.resource.yaml\<close>, the
  descriptor itself and \<^verbatim>\<open>b/x.txt\<close> are not linked.\<close>

theorem described_by_iff_descriptor_walked_witness:
  "wf_fs (fs (example_env scenario_tree))
   \<and> create_metadata (example_env scenario_tree) [''data''] None = Inr scenario_graph
   \<and> isDescribedBy (scenario_graph ! Suc 0) = Some ''a.resource.yaml''
   \<and> isDescribedBy (scenario_graph ! Suc 1) = None
   \<and> isDescribedBy (scenario_graph ! Suc 3) = None"
proof -
  let ?env = "example_env scenario_tree"
  have h1: "wf_fs (fs ?env)" by code_simp
  have h2: "create_metadata ?env [''data''] None = Inr scenario_graph"
    by (rule scenario_build)
  have h3: "list_directory_contents (fs ?env) [''data''] None =
     [\<lparr>itype = ''File'', path = ''a.csv'', root = []\<rparr>,
      \<lparr>itype = ''File'', path = ''a.resource.yaml'', root = []\<rparr>,
      \<lparr>itype = ''Directory'', path = ''b'', root = []\<rparr>,
      \<lparr>itype = ''File'', path = ''b/x.txt'', root = [''b'']\<rparr>]"
    by code_simp
  have s0: "splitext_root ''a.csv'' = ''a''" by code_simp
  have s3: "splitext_root ''b/x.txt'' = ''b/x''" by code_simp
  have e0: "\<not> endswith ''a.csv'' ''.resource.yaml''" by code_simp
  have e1: "endswith ''a.resource.yaml'' ''.resource.yaml''" by code_simp
  have e3: "\<not> endswith ''b/x.txt'' ''.resource.yaml''" by code_simp
  from described_by_iff_descriptor_walked [OF h1 h2 refl, of 0]
    described_by_iff_descriptor_walked [OF h1 h2 refl, of 1]
    described_by_iff_descriptor_walked [OF h1 h2 refl, of 3]
    h1 h2
  show ?thesis
    by (simp add: h3 s0 s3 e0 e1 e3)
qed

text \<open>
  C6 (exclusion): in a built manifest of a well-formed tree the entities other than the
  root are exactly the entries below the walked directory no path component of which
  (the entry's own name or the name of a directory above it) is in \<^verbatim>\<open>omit_names\<close> or
  ends in \<^verbatim>\<open>.git\<close> or \<^verbatim>\<open>.ipynb_checkpoints\<close>: an omitted file or directory has no
  entity, nothing below an omitted directory has one, and everything else has one.
\<close>

theorem exclusion_policy:
  assumes "wf_fs (fs env)"
    and "lookup directory (fs env) = Some (Dir n ch)"
    and "create_metadata env directory omit_names = Inr graph"
  shows "at_id (hd graph) = ''./''
     \<and> set (map at_id (tl graph)) =
         {join_path comps | comps. comps \<noteq> [] \<and> lookup comps (Dir n ch) \<noteq> None
            \<and> (\<forall>c \<in> set comps. c \<notin> set (omit_list omit_names)
                  \<and> \<not> endswith c ''.git'' \<and> \<not> endswith c ''.ipynb_checkpoints'')}"
proof -
  let ?contents = "list_directory_contents (fs env) directory omit_names"
  from assms(3) have b: "build_graph env directory ?contents = Inr graph"
    by (simp add: create_metadata_def)
  have ids: "map at_id graph = ''./'' # map path ?contents"
    by (rule build_graph_ids [OF b])
  then have ne: "graph \<noteq> []" by auto
  from ids ne have "at_id (hd graph) = ''./''"
    by (cases graph) auto
  moreover from ids ne have "map at_id (tl graph) = map path ?contents"
    by (cases graph) auto
  moreover have "?contents = walk_items (omit_list omit_names) [] ch"
    using assms(2) by (simp add: list_directory_contents_def)
  moreover have "path ` set (walk_items (omit_list omit_names) [] ch) =
     {join_path comps | comps. comps \<noteq> [] \<and> lookup comps (Dir n ch) \<noteq> None
        \<and> (\<forall>c \<in> set comps. \<not> should_omit (omit_list omit_names) c)}"
    by (rule walk_paths [OF wf_fs_lookup [OF assms(1,2)]])
  ultimately show ?thesis
    by (simp add: should_omit_iff)
qed

text \<open>C6, witness: \<^verbatim>\<open>omit_names = ["tmp"]\<close>; \<^verbatim>\<open>tmp/\<close> with its contents and \<^verbatim>\<open>.git/\<close> have
  no entity, \<^verbatim>\<open>tmp2/\<close> and its file have one.\<close>

theorem exclusion_policy_witness:
  "\<exists>graph.
     wf_fs (fs (example_env exclusion_tree))
     \<and> create_metadata (example_env exclusion_tree) [''data''] (Some [''tmp'']) = Inr graph
     \<and> map at_id graph = [''./'', ''keep.txt'', ''tmp2'', ''tmp2/z.txt'']
     \<and> set (map at_id (tl graph)) =
         {join_path comps | comps. comps \<noteq> []
            \<and> lookup comps (Dir ''data''
                 [Dir ''tmp'' [File ''y.txt'' ''y'', Dir ''sub'' [File ''w.txt'' ''w'']],
                  File ''keep.txt'' ''k'',
                  Dir ''tmp2'' [File ''z.txt'' ''z''],
                  Dir ''.git'' [File ''config'' ''c'']]) \<noteq> None
            \<and> (\<forall>c \<in> set comps. c \<notin> set (omit_list (Some [''tmp'']))
                  \<and> \<not> endswith c ''.git'' \<and> \<not> endswith c ''.ipynb_checkpoints'')}"
proof -
  let ?env = "example_env exclusion_tree"
  let ?graph = "[\<lparr>at_id = ''./'', at_type = ''Dataset'', name = ''data'',
            dateCreated = Some ''2024-06-14T12:00:00'', description = None,
            contentChecksum = None, hasPart = Some [], isDescribedBy = None\<rparr>,
          \<lparr>at_id = ''keep.txt'', at_type = ''File'', name = ''keep.txt'',
            dateCreated = None, description = None,
            contentChecksum = Some [(''MD5'', ''md5 of k'')], hasPart = None,
            isDescribedBy = None\<rparr>,
          \<lparr>at_id = ''tmp2'', at_type = ''Directory'', name = ''tmp2'',
            dateCreated = None, description = None,
            contentChecksum = None, hasPart = Some [''tmp2/z.txt''], isDescribedBy = None\<rparr>,
          \<lparr>at_id = ''tmp2/z.txt'', at_type = ''File'', name = ''z.txt'',
            dateCreated = None, description = None,
            contentChecksum = Some [(''MD5'', ''md5 of z'')], hasPart = None,
            isDescribedBy = None\<rparr>]"
  have h1: "wf_fs (fs ?env)" by code_simp
  have h2: "lookup [''data''] (fs ?env) = Some (Dir ''data''
                 [Dir ''tmp'' [File ''y.txt'' ''y'', Dir ''sub'' [File ''w.txt'' ''w'']],
                  File ''keep.txt'' ''k'',
                  Dir ''tmp2'' [File ''z.txt'' ''z''],
                  Dir ''.git'' [File ''config'' ''c'']])"
    by code_simp
  have h3: "create_metadata ?env [''data''] (Some [''tmp'']) = Inr ?graph"
    by code_simp
  from exclusion_policy [OF h1 h2 h3] h1 h3 show ?thesis
    by (intro exI [of _ ?graph]) simp
qed

text \<open>
  C7 (descriptor parsing). The claim: a descriptor that parses but is empty or no
  mapping yields the empty description. The code calls \<^verbatim>\<open>resource_data.get\<close> on whatever
  the loader returned; for the empty descriptor the loader returns \<^verbatim>\<open>None\<close>, the call
  raises \<^verbatim>\<open>AttributeError\<close> and the build is aborted.
\<close>

theorem empty_descriptor_aborts_build:
  "create_metadata (example_env empty_descriptor_tree) [''data''] None = Inl AttributeError"
  by code_simp

text \<open>
  C8 (colliding ids), as stated: two records of the same path make the builder fail with
  a structural error. Counterexample: the builder, given the record of \<^verbatim>\<open>a.csv\<close> twice,
  returns a graph with two entities of the id \<^verbatim>\<open>a.csv\<close>.
\<close>

theorem duplicate_ids_not_detected:
  "build_graph (example_env single_file_tree) [''data''] duplicate_contents =
     Inr [\<lparr>at_id = ''./'', at_type = ''Dataset'', name = ''data'',
            dateCreated = Some ''2024-06-14T12:00:00'', description = None,
            contentChecksum = None, hasPart = Some [], isDescribedBy = None\<rparr>,
          \<lparr>at_id = ''a.csv'', at_type = ''File'', name = ''a.csv'',
            dateCreated = None, description = None,
            contentChecksum = Some [(''MD5'', ''md5 of 1,2'')], hasPart = None,
            isDescribedBy = None\<rparr>,
          \<lparr>at_id = ''a.csv'', at_type = ''File'', name = ''a.csv'',
            dateCreated = None, description = None,
            contentChecksum = Some [(''MD5'', ''md5 of 1,2'')], hasPart = None,
            isDescribedBy = None\<rparr>]"
  by code_simp

text \<open>
  C8, amended: the builder has no check for colliding ids. Whenever the entity of every
  record can be made (its descriptor loads and its file can be hashed), the build
  succeeds and the graph holds the root and one entity per record, in the order of the
  records, also when several records have the same path; \<^verbatim>\<open>path_to_entity\<close> then binds
  the path to the entity of the last of these records.
\<close>

theorem builder_keeps_colliding_ids:
  assumes "\<forall>it \<in> set contents. \<exists>ent. make_entity env directory it = Inr ent"
  shows "(\<exists>graph. build_graph env directory contents = Inr graph
            \<and> map at_id graph = ''./'' # map path contents)
     \<and> (\<exists>graph path_to_entity.
            first_pass env directory contents ([root_dataset env directory], Map.empty)
              = Inr (graph, path_to_entity)
            \<and> (\<forall>i < length contents.
                  (\<forall>k. i < k \<and> k < length contents \<longrightarrow> path (contents ! k) \<noteq> path (contents ! i))
                  \<longrightarrow> path_to_entity (path (contents ! i)) = Some (Suc i)))"
proof
  from build_graph_total [OF assms] obtain graph where
    g: "build_graph env directory contents = Inr graph" by blast
  from g build_graph_ids [OF g]
  show "\<exists>graph. build_graph env directory contents = Inr graph
      \<and> map at_id graph = ''./'' # map path contents"
    by (intro exI [of _ graph] conjI)
next
  from first_pass_total [OF assms] obtain graph m where
    fp: "first_pass env directory contents ([root_dataset env directory], Map.empty)
      = Inr (graph, m)"
    by blast
  have "m (path (contents ! i)) = Some (Suc i)"
    if "i < length contents"
      "\<forall>k. i < k \<and> k < length contents \<longrightarrow> path (contents ! k) \<noteq> path (contents ! i)" for i
    using first_pass_map_last [OF fp that] by simp
  with fp show "\<exists>graph path_to_entity.
       first_pass env directory contents ([root_dataset env directory], Map.empty)
         = Inr (graph, path_to_entity)
       \<and> (\<forall>i < length contents.
             (\<forall>k. i < k \<and> k < length contents \<longrightarrow> path (contents ! k) \<noteq> path (contents ! i))
             \<longrightarrow> path_to_entity (path (contents ! i)) = Some (Suc i))"
    by blast
qed

text \<open>C8, witness: the record of \<^verbatim>\<open>a.csv\<close> twice.\<close>

theorem builder_keeps_colliding_ids_witness:
  "(\<exists>graph. build_graph (example_env single_file_tree) [''data''] duplicate_contents = Inr graph
      \<and> map at_id graph = [''./'', ''a.csv'', ''a.csv''])
   \<and> (\<exists>graph path_to_entity.
        first_pass (example_env single_file_tree) [''data''] duplicate_contents
          ([root_dataset (example_env single_file_tree) [''data'']], Map.empty)
          = Inr (graph, path_to_entity)
        \<and> path_to_entity ''a.csv'' = Some 2)"
proof -
  have "make_entity (example_env single_file_tree) [''data'']
      \<lparr>itype = ''File'', path = ''a.csv'', root = []\<rparr> =
        Inr \<lparr>at_id = ''a.csv'', at_type = ''File'', name = ''a.csv'',
            dateCreated = None, description = None,
            contentChecksum = Some [(''MD5'', ''md5 of 1,2'')], hasPart = None,
            isDescribedBy = None\<rparr>"
    by code_simp
  then have h: "\<forall>it \<in> set duplicate_contents.
      \<exists>ent. make_entity (example_env single_file_tree) [''data''] it = Inr ent"
    by (simp add: duplicate_contents_def)
  note t = builder_keeps_colliding_ids [OF h]
  from t have a: "\<exists>graph. build_graph (example_env single_file_tree) [''data''] duplicate_contents
      = Inr graph \<and> map at_id graph = [''./'', ''a.csv'', ''a.csv'']"
    by (simp add: duplicate_contents_def)
  from t obtain graph m where
    fp: "first_pass (example_env single_file_tree) [''data''] duplicate_contents
          ([root_dataset (example_env single_file_tree) [''data'']], Map.empty) = Inr (graph, m)"
    and last: "\<forall>i < length duplicate_contents.
       (\<forall>k. i < k \<and> k < length duplicate_contents \<longrightarrow>
            path (duplicate_contents ! k) \<noteq> path (duplicate_contents ! i))
       \<longrightarrow> m (path (duplicate_contents ! i)) = Some (Suc i)"
    by blast
  have "1 < length duplicate_contents" by (simp add: duplicate_contents_def)
  moreover have "\<forall>k. 1 < k \<and> k < length duplicate_contents \<longrightarrow>
       path (duplicate_contents ! k) \<noteq> path (duplicate_contents ! 1)"
    by (simp add: duplicate_contents_def)
  ultimately have "m (path (duplicate_contents ! 1)) = Some (Suc 1)"
    using last by blast
  then have "m ''a.csv'' = Some 2" by (simp add: duplicate_contents_def)
  with fp a show ?thesis by blast
qed

text \<open>
  C9 (empty directory), as stated: the entity of an empty directory has an empty
  \<^verbatim>\<open>hasPart\<close> in the finished graph. Counterexample: the walked directory holds the
  empty directory \<^verbatim>\<open>e\<close>; its entity has no \<^verbatim>\<open>hasPart\<close> key at all (only the root is
  created with \<^verbatim>\<open>"hasPart": []\<close>).
\<close>

theorem empty_directory_hasPart_absent:
  "create_metadata (example_env empty_dir_tree) [''data''] None =
     Inr [\<lparr>at_id = ''./'', at_type = ''Dataset'', name = ''data'',
            dateCreated = Some ''2024-06-14T12:00:00'', description = None,
            contentChecksum = None, hasPart = Some [], isDescribedBy = None\<rparr>,
          \<lparr>at_id = ''e'', at_type = ''Directory'', name = ''e'',
            dateCreated = None, description = None,
            contentChecksum = None, hasPart = None, isDescribedBy = None\<rparr>]"
  by code_simp

text \<open>
  C9, amended: for a directory of a well-formed tree that the walk lists and none of
  whose children the walk keeps (an empty directory in particular), the walk has the
  directory's own record and no record below it, and in the built manifest its
  Directory entity has no \<^verbatim>\<open>hasPart\<close> key: the key is only created when the first child
  is appended.
\<close>

theorem empty_directory_has_no_hasPart:
  assumes "wf_fs (fs env)"
    and "lookup directory (fs env) = Some (Dir n ch)"
    and "create_metadata env directory omit_names = Inr graph"
    and "contents = list_directory_contents (fs env) directory omit_names"
    and "lookup comps (Dir n ch) = Some (Dir n' ch')" and "comps \<noteq> []"
    and "\<forall>c \<in> set comps. \<not> should_omit (omit_list omit_names) c"
    and "\<forall>k \<in> set ch'. should_omit (omit_list omit_names) (node_name k)"
  shows "(\<exists>i < length contents. path (contents ! i) = relpath comps)
     \<and> (\<forall>i < length contents. path (contents ! i) = relpath comps \<longrightarrow>
           at_id (graph ! Suc i) = relpath comps
           \<and> at_type (graph ! Suc i) = ''Directory''
           \<and> hasPart (graph ! Suc i) = None)
     \<and> (\<forall>it \<in> set contents. root it \<noteq> comps)"
proof -
  let ?ns = "omit_list omit_names"
  have w: "contents = walk_items ?ns [] ch"
    using assms(2,4) by (simp add: list_directory_contents_def)
  have wfc: "wf_children ch" by (rule wf_fs_lookup [OF assms(1,2)])
  have b: "build_graph env directory contents = Inr graph"
    using assms(3,4) by (simp add: create_metadata_def)
  have d: "distinct (map path contents)"
    unfolding assms(4) by (rule contents_distinct [OF assms(1)])
  have none: "dir_records ?ns comps (children_of (Dir n' ch')) = []"
    using dir_records_all_omitted [OF assms(8)] by simp
  from walk_entry_index [OF assms(2,4,5,6,7)] obtain j where
    j: "j < length contents" "contents ! j = entry_record comps (Dir n' ch')"
    by blast
  then have pj: "path (contents ! j) = relpath comps" by simp
  have 1: "\<exists>i < length contents. path (contents ! i) = relpath comps"
    using j(1) pj by blast
  have 2: "at_id (graph ! Suc i) = relpath comps \<and> at_type (graph ! Suc i) = ''Directory''
      \<and> hasPart (graph ! Suc i) = None"
    if i: "i < length contents" and pi: "path (contents ! i) = relpath comps" for i
  proof -
    have "map path contents ! i = map path contents ! j"
      using i j(1) pi pj by simp
    with nth_eq_iff_index_eq [OF d, of i j] i j(1) have "i = j" by simp
    with j(2) have "itype (contents ! i) = ''Directory''" by (simp add: entry_record_def)
    with graph_types [OF b i] have "at_type (graph ! Suc i) = ''Directory''" by simp
    moreover have "hasPart (graph ! Suc i) = None"
      using graph_hasPart_walk [OF assms(1,2,3,4) i pi assms(5,6,7)] none by simp
    moreover have "at_id (graph ! Suc i) = relpath comps"
    proof -
      have "map at_id graph ! Suc i = (''./'' # map path contents) ! Suc i"
        by (simp only: build_graph_ids [OF b])
      with i build_graph_length [OF b] pi show ?thesis by simp
    qed
    ultimately show ?thesis by simp
  qed
  have "filter (\<lambda>it. root it = comps) (walk_items ?ns [] ch) = []"
    using walk_root_filter [OF wfc assms(5,7)] none by simp
  then have "filter (\<lambda>it. root it = comps) contents = []"
    by (simp only: w)
  then have 3: "\<forall>it \<in> set contents. root it \<noteq> comps"
    by (simp add: filter_empty_conv)
  from 1 2 3 show ?thesis by blast
qed

text \<open>C9, witness: the empty directory \<^verbatim>\<open>e\<close>.\<close>

theorem empty_directory_has_no_hasPart_witness:
  "\<exists>graph.
     wf_fs (fs (example_env empty_dir_tree))
     \<and> create_metadata (example_env empty_dir_tree) [''data''] None = Inr graph
     \<and> lookup [''e''] (Dir ''data'' [Dir ''e'' []]) = Some (Dir ''e'' [])
     \<and> list_directory_contents (fs (example_env empty_dir_tree)) [''data''] None
         = [\<lparr>itype = ''Directory'', path = ''e'', root = []\<rparr>]
     \<and> at_id (graph ! Suc 0) = ''e''
     \<and> at_type (graph ! Suc 0) = ''Directory''
     \<and> hasPart (graph ! Suc 0) = None"
proof -
  let ?env = "example_env empty_dir_tree"
  let ?graph = "[\<lparr>at_id = ''./'', at_type = ''Dataset'', name = ''data'',
            dateCreated = Some ''2024-06-14T12:00:00'', description = None,
            contentChecksum = None, hasPart = Some [], isDescribedBy = None\<rparr>,
          \<lparr>at_id = ''e'', at_type = ''Directory'', name = ''e'',
            dateCreated = None, description = None,
            contentChecksum = None, hasPart = None, isDescribedBy = None\<rparr>]"
  have h1: "wf_fs (fs ?env)" by code_simp
  have h2: "lookup [''data''] (fs ?env) = Some (Dir ''data'' [Dir ''e'' []])" by code_simp
  have h3: "create_metadata ?env [''data''] None = Inr ?graph" by code_simp
  have h4: "list_directory_contents (fs ?env) [''data''] None
      = [\<lparr>itype = ''Directory'', path = ''e'', root = []\<rparr>]"
    by code_simp
  have h5: "lookup [''e''] (Dir ''data'' [Dir ''e'' []]) = Some (Dir ''e'' [])" by code_simp
  have h6: "[''e''] \<noteq> []" by simp
  have h7: "\<forall>c \<in> set [''e'']. \<not> should_omit (omit_list None) c" by code_simp
  have h8: "\<forall>k \<in> set []. should_omit (omit_list None) (node_name k)" by simp
  have r: "relpath [''e''] = ''e''" by code_simp
  from empty_directory_has_no_hasPart [OF h1 h2 h3 refl h5 h6 h7 h8] h1 h3 h4 h5
  show ?thesis
    by (intro exI [of _ ?graph]) (simp add: r)
qed

text \<open>
  C10 (files before directories): for every entry of a well-formed tree reached through
  kept names, the records of the walk that have the entry as their parent are the
  records of its kept files, in the order of the listing, followed by the records of
  its kept sub-directories, in the order of the listing (none if the entry is a file);
  and in a built manifest the \<^verbatim>\<open>hasPart\<close> of the entry's entity lists the ids of
  exactly these records in this order (the key is absent if there are none). The
  root's \<^verbatim>\<open>hasPart\<close> is the empty list.
\<close>

theorem files_before_directories:
  assumes "wf_fs (fs env)"
    and "lookup directory (fs env) = Some (Dir n ch)"
    and "contents = list_directory_contents (fs env) directory omit_names"
    and "lookup comps (Dir n ch) = Some nd"
    and "\<forall>c \<in> set comps. \<not> should_omit (omit_list omit_names) c"
    and "files = kept_files (omit_list omit_names) (children_of nd)"
    and "dirs = kept_dirs (omit_list omit_names) (children_of nd)"
  shows "filter (\<lambda>it. root it = comps) contents =
       map (\<lambda>nm. \<lparr>itype = ''File'', path = relpath (comps @ [nm]), root = comps\<rparr>) files
       @ map (\<lambda>nm. \<lparr>itype = ''Directory'', path = relpath (comps @ [nm]), root = comps\<rparr>) dirs
     \<and> (\<forall>graph i. create_metadata env directory omit_names = Inr graph
           \<and> i < length contents \<and> path (contents ! i) = relpath comps \<and> comps \<noteq> [] \<longrightarrow>
           hasPart (graph ! Suc i) =
             (if files @ dirs = [] then None
              else Some (map (\<lambda>nm. relpath (comps @ [nm])) (files @ dirs))))
     \<and> (\<forall>graph. create_metadata env directory omit_names = Inr graph \<longrightarrow>
           hasPart (graph ! 0) = Some [])"
proof -
  let ?ns = "omit_list omit_names"
  have w: "contents = walk_items ?ns [] ch"
    using assms(2,3) by (simp add: list_directory_contents_def)
  have wfc: "wf_children ch" by (rule wf_fs_lookup [OF assms(1,2)])
  have recs: "dir_records ?ns comps (children_of nd) =
       map (\<lambda>nm. \<lparr>itype = ''File'', path = relpath (comps @ [nm]), root = comps\<rparr>) files
       @ map (\<lambda>nm. \<lparr>itype = ''Directory'', path = relpath (comps @ [nm]), root = comps\<rparr>) dirs"
    by (simp add: dir_records_def assms(6,7))
  have "filter (\<lambda>it. root it = comps) (walk_items ?ns [] ch) = dir_records ?ns comps (children_of nd)"
    by (rule walk_root_filter [OF wfc assms(4,5)])
  then have 1: "filter (\<lambda>it. root it = comps) contents = dir_records ?ns comps (children_of nd)"
    by (simp only: w)
  have paths: "map path (dir_records ?ns comps (children_of nd))
      = map (\<lambda>nm. relpath (comps @ [nm])) (files @ dirs)"
    by (simp add: recs comp_def)
  have empty: "dir_records ?ns comps (children_of nd) = [] \<longleftrightarrow> files @ dirs = []"
    by (simp add: recs)
  have 2: "hasPart (graph ! Suc i) =
             (if files @ dirs = [] then None
              else Some (map (\<lambda>nm. relpath (comps @ [nm])) (files @ dirs)))"
    if "create_metadata env directory omit_names = Inr graph" "i < length contents"
      "path (contents ! i) = relpath comps" "comps \<noteq> []" for graph i
    unfolding graph_hasPart_walk [OF assms(1,2) that(1) assms(3) that(2,3) assms(4) that(4) assms(5)]
      paths empty ..
  have 3: "hasPart (graph ! 0) = Some []"
    if "create_metadata env directory omit_names = Inr graph" for graph
    using build_graph_root [of env directory contents graph] that assms(3)
    by (simp add: create_metadata_def root_dataset_def)
  from 1 2 3 show ?thesis unfolding recs by blast
qed

text \<open>C10, witness: the directory \<^verbatim>\<open>d2\<close>, listed as \<^verbatim>\<open>g/\<close>, \<^verbatim>\<open>h.txt\<close>, \<^verbatim>\<open>i.txt\<close>.\<close>

theorem files_before_directories_witness:
  "\<exists>graph.
     wf_fs (fs (example_env ordering_tree))
     \<and> lookup [''d2''] (Dir ''data''
           [Dir ''d1'' [], File ''f1.txt'' ''1'',
            Dir ''d2'' [Dir ''g'' [], File ''h.txt'' ''h'', File ''i.txt'' ''i''],
            File ''f2.txt'' ''2''])
         = Some (Dir ''d2'' [Dir ''g'' [], File ''h.txt'' ''h'', File ''i.txt'' ''i''])
     \<and> filter (\<lambda>it. root it = [''d2''])
           (list_directory_contents (fs (example_env ordering_tree)) [''data''] None)
         = [\<lparr>itype = ''File'', path = ''d2/h.txt'', root = [''d2'']\<rparr>,
            \<lparr>itype = ''File'', path = ''d2/i.txt'', root = [''d2'']\<rparr>,
            \<lparr>itype = ''Directory'', path = ''d2/g'', root = [''d2'']\<rparr>]
     \<and> create_metadata (example_env ordering_tree) [''data''] None = Inr graph
     \<and> at_id (graph ! Suc 3) = ''d2''
     \<and> hasPart (graph ! Suc 3) = Some [''d2/h.txt'', ''d2/i.txt'', ''d2/g'']
     \<and> hasPart (graph ! 0) = Some []"
proof -
  let ?env = "example_env ordering_tree"
  let ?d2 = "Dir ''d2'' [Dir ''g'' [], File ''h.txt'' ''h'', File ''i.txt'' ''i'']"
  let ?data = "Dir ''data'' [Dir ''d1'' [], File ''f1.txt'' ''1'', ?d2, File ''f2.txt'' ''2'']"
  have h1: "wf_fs (fs ?env)" by code_simp
  have h2: "lookup [''data''] (fs ?env) = Some ?data" by code_simp
  have h4: "lookup [''d2''] ?data = Some ?d2" by code_simp
  have h5: "\<forall>c \<in> set [''d2'']. \<not> should_omit (omit_list None) c" by code_simp
  have h6: "[''h.txt'', ''i.txt''] = kept_files (omit_list None) (children_of ?d2)" by code_simp
  have h7: "[''g''] = kept_dirs (omit_list None) (children_of ?d2)" by code_simp
  obtain graph where g: "create_metadata ?env [''data''] None = Inr graph"
    and id: "at_id (graph ! Suc 3) = ''d2''"
  proof
    show "create_metadata ?env [''data''] None = Inr
         [\<lparr>at_id = ''./'', at_type = ''Dataset'', name = ''data'',
            dateCreated = Some ''2024-06-14T12:00:00'', description = None,
            contentChecksum = None, hasPart = Some [], isDescribedBy = None\<rparr>,
          \<lparr>at_id = ''f1.txt'', at_type = ''File'', name = ''f1.txt'',
            dateCreated = None, description = None,
            contentChecksum = Some [(''MD5'', ''md5 of 1'')], hasPart = None,
            isDescribedBy = None\<rparr>,
          \<lparr>at_id = ''f2.txt'', at_type = ''File'', name = ''f2.txt'',
            dateCreated = None, description = None,
            contentChecksum = Some [(''MD5'', ''md5 of 2'')], hasPart = None,
            isDescribedBy = None\<rparr>,
          \<lparr>at_id = ''d1'', at_type = ''Directory'', name = ''d1'',
            dateCreated = None, description = None,
            contentChecksum = None, hasPart = None, isDescribedBy = None\<rparr>,
          \<lparr>at_id = ''d2'', at_type = ''Directory'', name = ''d2'',
            dateCreated = None, description = None,
            contentChecksum = None, hasPart = Some [''d2/h.txt'', ''d2/i.txt'', ''d2/g''],
            isDescribedBy = None\<rparr>,
          \<lparr>at_id = ''d2/h.txt'', at_type = ''File'', name = ''h.txt'',
            dateCreated = None, description = None,
            contentChecksum = Some [(''MD5'', ''md5 of h'')], hasPart = None,
            isDescribedBy = None\<rparr>,
          \<lparr>at_id = ''d2/i.txt'', at_type = ''File'', name = ''i.txt'',
            dateCreated = None, description = None,
            contentChecksum = Some [(''MD5'', ''md5 of i'')], hasPart = None,
            isDescribedBy = None\<rparr>,
          \<lparr>at_id = ''d2/g'', at_type = ''Directory'', name = ''g'',
            dateCreated = None, description = None,
            contentChecksum = None, hasPart = None, isDescribedBy = None\<rparr>]"
      by code_simp
  qed simp
  have len: "3 < length (list_directory_contents (fs ?env) [''data''] None)" by code_simp
  have p3: "path (list_directory_contents (fs ?env) [''data''] None ! 3) = relpath [''d2'']"
    by code_simp
  have r: "relpath ([''d2''] @ [''h.txt'']) = ''d2/h.txt''"
    "relpath ([''d2''] @ [''i.txt'']) = ''d2/i.txt''"
    "relpath ([''d2''] @ [''g'']) = ''d2/g''"
    by code_simp+
  note t = files_before_directories [OF h1 h2 refl h4 h5 h6 h7]
  from t have a: "filter (\<lambda>it. root it = [''d2''])
           (list_directory_contents (fs ?env) [''data''] None)
         = [\<lparr>itype = ''File'', path = ''d2/h.txt'', root = [''d2'']\<rparr>,
            \<lparr>itype = ''File'', path = ''d2/i.txt'', root = [''d2'']\<rparr>,
            \<lparr>itype = ''Directory'', path = ''d2/g'', root = [''d2'']\<rparr>]"
    using r by simp
  from t have "create_metadata ?env [''data''] None = Inr graph
      \<and> 3 < length (list_directory_contents (fs ?env) [''data''] None)
      \<and> path (list_directory_contents (fs ?env) [''data''] None ! 3) = relpath [''d2'']
      \<and> [''d2''] \<noteq> [] \<longrightarrow>
      hasPart (graph ! Suc 3) =
        (if [''h.txt'', ''i.txt''] @ [''g''] = [] then None
         else Some (map (\<lambda>nm. relpath ([''d2''] @ [nm])) ([''h.txt'', ''i.txt''] @ [''g''])))"
    by blast
  with g len p3 have b: "hasPart (graph ! Suc 3) = Some [''d2/h.txt'', ''d2/i.txt'', ''d2/g'']"
    using r by simp
  from t g have c: "hasPart (graph ! 0) = Some []" by blast
  from h1 h4 a g id b c show ?thesis by blast
qed

end
